theory Spec2Isabelle
  imports Main "HOL-Library.Sublist"
begin


section \<open>Go string primitives\<close>

text \<open>
  Go strings are byte sequences; they are modelled as \<open>string\<close> (lists of 8-bit
  characters). The functions of package \<open>strings\<close> used by obi are written out on bytes.
  Character classes are the ASCII ones: \<open>strings.TrimSpace\<close> strips tab, line feed,
  vertical tab, form feed, carriage return and space, and \<open>strings.ToLower\<close> maps
  \<open>A\<close>..\<open>Z\<close> to \<open>a\<close>..\<open>z\<close>. (On text outside ASCII Go additionally knows the
  Unicode spaces and letters; the development is about ASCII text.)
\<close>

definition isSpace :: "char \<Rightarrow> bool" where
  "isSpace c = (c \<in> set [CHR 0x09, CHR 0x0A, CHR 0x0B, CHR 0x0C, CHR 0x0D, CHR '' ''])"

definition TrimLeftFunc :: "(char \<Rightarrow> bool) \<Rightarrow> string \<Rightarrow> string" where
  "TrimLeftFunc f s = dropWhile f s"

definition TrimRightFunc :: "(char \<Rightarrow> bool) \<Rightarrow> string \<Rightarrow> string" where
  "TrimRightFunc f s = rev (dropWhile f (rev s))"

definition TrimSpace :: "string \<Rightarrow> string" where
  "TrimSpace s = TrimRightFunc isSpace (TrimLeftFunc isSpace s)"

definition TrimRight :: "string \<Rightarrow> string \<Rightarrow> string" where
  "TrimRight s cutset = TrimRightFunc (\<lambda>c. c \<in> set cutset) s"

definition isUpper :: "char \<Rightarrow> bool" where
  "isUpper c = (65 \<le> (of_char c :: nat) \<and> (of_char c :: nat) \<le> 90)"

definition toLowerChar :: "char \<Rightarrow> char" where
  "toLowerChar c = (if isUpper c then char_of ((of_char c :: nat) + 32) else c)"

definition ToLower :: "string \<Rightarrow> string" where
  "ToLower s = map toLowerChar s"

definition EqualFold :: "string \<Rightarrow> string \<Rightarrow> bool" where
  "EqualFold s t = (ToLower s = ToLower t)"

definition HasPrefix :: "string \<Rightarrow> string \<Rightarrow> bool" where
  "HasPrefix s p = prefix p s"

definition Contains :: "string \<Rightarrow> string \<Rightarrow> bool" where
  "Contains s substr = sublist substr s"

text \<open>
  \<open>strings.ReplaceAll(s, old, new)\<close>: the non-overlapping occurrences of \<open>old\<close> are
  replaced from left to right. With an empty \<open>old\<close>, Go inserts \<open>new\<close> in front of the
  string and after every character.
\<close>

function ReplaceAll :: "string \<Rightarrow> string \<Rightarrow> string \<Rightarrow> string" where
  "ReplaceAll s old new =
     (if old = [] then new @ concat (map (\<lambda>c. c # new) s)
      else if s = [] then []
      else if prefix old s then new @ ReplaceAll (drop (length old) s) old new
      else hd s # ReplaceAll (tl s) old new)"
  by pat_completeness auto
termination
  by (relation "measure (\<lambda>(s, old, new). length s)") auto

declare ReplaceAll.simps [simp del]



section \<open>Redactor\<close>

definition placeholder :: string where
  "placeholder = ''[REDACTED]''"

text \<open>
  \<open>newSecretRedactor\<close> keeps the secrets that are not blank and returns the identity
  when none is left; \<open>secretRedactor.Redact\<close> replaces the kept secrets in the order
  supplied.
\<close>

definition cleanSecrets :: "string list \<Rightarrow> string list" where
  "cleanSecrets secrets = filter (\<lambda>secret. TrimSpace secret \<noteq> []) secrets"

definition Redact :: "string list \<Rightarrow> string \<Rightarrow> string" where
  "Redact secrets input = foldl (\<lambda>out secret. ReplaceAll out secret placeholder) input secrets"

definition newSecretRedactor :: "string list \<Rightarrow> string \<Rightarrow> string" where
  "newSecretRedactor secrets =
     (let clean = cleanSecrets secrets in if clean = [] then (\<lambda>s. s) else Redact clean)"

text \<open>\<open>redactText\<close> of package app: the secrets are trimmed, blank ones skipped.\<close>

definition redactStep :: "string \<times> bool \<Rightarrow> string \<Rightarrow> string \<times> bool" where
  "redactStep acc secret0 =
     (let secret = TrimSpace secret0 in
      if secret = [] then acc
      else if Contains (fst acc) secret then (ReplaceAll (fst acc) secret placeholder, True)
      else acc)"

definition redactText :: "string \<Rightarrow> string list \<Rightarrow> string \<times> bool" where
  "redactText input secrets =
     (if secrets = [] then (input, False) else foldl redactStep (input, False) secrets)"

text \<open>
  A secret collides with the placeholder when it contains a bracket or occurs inside
  \<open>[REDACTED]\<close>: replacing it can then produce text in which it occurs again.
\<close>

definition collides :: "string \<Rightarrow> bool" where
  "collides s = (CHR ''['' \<in> set s \<or> CHR '']'' \<in> set s \<or> sublist s placeholder)"

definition safe_secret :: "string \<Rightarrow> bool" where
  "safe_secret s = (\<not> collides s \<and> \<not> collides (TrimSpace s))"

section \<open>Ledger\<close>

text \<open>
  A \<open>time.Time\<close> is modelled by the instant it denotes: an integer number of
  nanoseconds since the zero time (January 1 of year 1, 00:00 UTC), which \<open>IsZero\<close>
  recognises. \<open>Sub\<close> yields a \<open>Duration\<close>, a signed 64-bit count of nanoseconds that
  saturates at its bounds, and \<open>Milliseconds\<close> is Go's truncating integer division by
  \<open>1e6\<close>.
\<close>

type_synonym Time = int

definition IsZero :: "Time \<Rightarrow> bool" where
  "IsZero t = (t = 0)"

definition Before :: "Time \<Rightarrow> Time \<Rightarrow> bool" where
  "Before t u = (t < u)"

definition maxDuration :: int where
  "maxDuration = 2 ^ 63 - 1"

definition minDuration :: int where
  "minDuration = - (2 ^ 63)"

definition Sub :: "Time \<Rightarrow> Time \<Rightarrow> int" where
  "Sub t u =
     (let d = t - u in
      if d > maxDuration then maxDuration else if d < minDuration then minDuration else d)"

definition Milliseconds :: "int \<Rightarrow> int" where
  "Milliseconds d = (if d < 0 then - ((- d) div 1000000) else d div 1000000)"

definition durationMillis :: "Time \<Rightarrow> Time \<Rightarrow> int" where
  "durationMillis start end' =
     (if IsZero start \<or> IsZero end' then 0
      else if Before end' start then 0
      else Milliseconds (Sub end' start))"

definition ledgerSchemaVersion :: string where
  "ledgerSchemaVersion = ''obi.v2''"

definition StatusSuccess :: string where
  "StatusSuccess = ''success''"

definition StatusFailure :: string where
  "StatusFailure = ''needs_help''"

record operatorLedgerEvent =
  Kind :: string
  Message :: string
  EvTime :: Time

record ledgerEntry =
  SchemaVersion :: string
  RunID :: string
  SessionID :: string
  RepoRoot :: string
  EpicID :: string
  EpicKey :: string
  EpicName :: string
  Alias :: string
  BeadID :: string
  Status :: string
  CommitSummary :: string
  CommitDetails :: string
  Escalation :: string
  StartedAt :: Time
  CompletedAt :: Time
  DurationMs :: int
  ExitCode :: int
  TranscriptPath :: string
  CodexBinary :: string
  CodexModel :: string
  CodexSandbox :: string
  CodexApproval :: string
  CodexExtraArgs :: "string list"
  ConfigDigest :: string
  PromptHash :: string
  Redacted :: bool
  OperatorEvents :: "operatorLedgerEvent list"

text \<open>
  The results log is a file of one JSON record per line. A line of the file is blank,
  a record, or text that \<open>json.Unmarshal\<close> rejects; a path that names no file maps to
  \<open>None\<close>. Encoding a record and the operating system's file operations are taken to
  succeed. \<open>upgraded\<close> is the process-wide \<open>ledgerUpgradeOnce\<close> set of paths.
\<close>

datatype ledger_line = BlankLine | BadLine | EntryLine ledgerEntry

record ledger_fs =
  files :: "string \<rightharpoonup> ledger_line list"
  upgraded :: "string set"

datatype ledger_error =
    EmptyLogPath
  | LedgerNotFound string
  | ParseLedgerEntry
  | MissingStatus string
  | MissingBeadID string
  | EndedNeedsHelp string string string
  | UnknownStatus string string

fun firstNonBlank :: "ledger_line list \<Rightarrow> ledger_line option" where
  "firstNonBlank [] = None"
| "firstNonBlank (BlankLine # ls) = firstNonBlank ls"
| "firstNonBlank (l # ls) = Some l"

text \<open>
  \<open>ledgerNeedsUpgrade\<close> looks at the first non-blank line only: the file needs an
  upgrade when that line does not carry the current schema version.
\<close>

definition lineHasCurrentSchema :: "ledger_line \<Rightarrow> bool" where
  "lineHasCurrentSchema l =
     (case l of EntryLine e \<Rightarrow> SchemaVersion e = ledgerSchemaVersion | _ \<Rightarrow> False)"

definition ledgerNeedsUpgrade :: "ledger_line list option \<Rightarrow> bool" where
  "ledgerNeedsUpgrade f =
     (case f of None \<Rightarrow> False
      | Some ls \<Rightarrow> (case firstNonBlank ls of None \<Rightarrow> False | Some l \<Rightarrow> \<not> lineHasCurrentSchema l))"

fun upgradeLines :: "ledger_line list \<Rightarrow> ledger_error + ledger_line list" where
  "upgradeLines [] = Inr []"
| "upgradeLines (BlankLine # ls) = upgradeLines ls"
| "upgradeLines (BadLine # ls) = Inl ParseLedgerEntry"
| "upgradeLines (EntryLine e # ls) =
     (case upgradeLines ls of Inl err \<Rightarrow> Inl err
      | Inr ls' \<Rightarrow> Inr (EntryLine (e\<lparr>SchemaVersion := ledgerSchemaVersion\<rparr>) # ls'))"

definition ensureLedgerSchema :: "string \<Rightarrow> ledger_fs \<Rightarrow> ledger_error + ledger_fs" where
  "ensureLedgerSchema path fs =
     (if TrimSpace path = [] then Inr fs
      else if path \<in> upgraded fs then Inr fs
      else if ledgerNeedsUpgrade (files fs path) then
        (case files fs path of
           None \<Rightarrow> Inr (fs\<lparr>upgraded := insert path (upgraded fs)\<rparr>)
         | Some ls \<Rightarrow>
            (case upgradeLines ls of Inl err \<Rightarrow> Inl err
             | Inr ls' \<Rightarrow> Inr (fs\<lparr>files := (files fs)(path \<mapsto> ls'),
                                   upgraded := insert path (upgraded fs)\<rparr>)))
      else Inr (fs\<lparr>upgraded := insert path (upgraded fs)\<rparr>))"

definition prepareEntry :: "ledgerEntry \<Rightarrow> ledgerEntry" where
  "prepareEntry entry =
     entry\<lparr>SchemaVersion := ledgerSchemaVersion,
           CommitSummary := TrimSpace (CommitSummary entry),
           CommitDetails := TrimSpace (CommitDetails entry),
           Escalation := TrimSpace (Escalation entry),
           DurationMs := durationMillis (StartedAt entry) (CompletedAt entry)\<rparr>"

definition appendLedgerEntry :: "string \<Rightarrow> ledgerEntry \<Rightarrow> ledger_fs \<Rightarrow> ledger_error + ledger_fs" where
  "appendLedgerEntry path entry fs =
     (if path = [] then Inl EmptyLogPath
      else (case ensureLedgerSchema path fs of Inl err \<Rightarrow> Inl err
            | Inr fs' \<Rightarrow>
               (let old = (case files fs' path of None \<Rightarrow> [] | Some ls \<Rightarrow> ls)
                in Inr (fs'\<lparr>files := (files fs')(path \<mapsto> old @ [EntryLine (prepareEntry entry)])\<rparr>))))"

text \<open>The records of a file, in file order; the last one is the record appended last.\<close>

fun lineEntries :: "ledger_line list \<Rightarrow> ledgerEntry list" where
  "lineEntries [] = []"
| "lineEntries (EntryLine e # ls) = e # lineEntries ls"
| "lineEntries (l # ls) = lineEntries ls"

subsection \<open>Reading the ledger back\<close>

fun scanEntries :: "string \<Rightarrow> ledger_line list \<Rightarrow> ledger_error + ledgerEntry list" where
  "scanEntries lowerEpic [] = Inr []"
| "scanEntries lowerEpic (BlankLine # ls) = scanEntries lowerEpic ls"
| "scanEntries lowerEpic (BadLine # ls) = Inl ParseLedgerEntry"
| "scanEntries lowerEpic (EntryLine e # ls) =
     (case scanEntries lowerEpic ls of Inl err \<Rightarrow> Inl err
      | Inr es \<Rightarrow>
         Inr (if lowerEpic = [] \<or> EqualFold (TrimSpace (EpicID e)) lowerEpic then e # es else es))"

definition ledgerEntriesForEpic :: "ledger_fs \<Rightarrow> string \<Rightarrow> string \<Rightarrow> ledger_error + ledgerEntry list" where
  "ledgerEntriesForEpic fs path epicID =
     (case files fs path of
        None \<Rightarrow> Inl (LedgerNotFound path)
      | Some ls \<Rightarrow> scanEntries (ToLower (TrimSpace epicID)) ls)"

text \<open>
  The loop of \<open>completedBeadsFromLedger\<close>: \<open>seen\<close> is the map of lower-cased bead ids
  met so far, \<open>completed\<close> the result under construction.
\<close>

fun completedLoop :: "string set \<Rightarrow> string list \<Rightarrow> ledgerEntry list \<Rightarrow> ledger_error + string list" where
  "completedLoop seen completed [] = Inr completed"
| "completedLoop seen completed (entry # entries) =
     (let status = ToLower (TrimSpace (Status entry)) in
      if status = [] then Inl (MissingStatus (SessionID entry))
      else if status = StatusSuccess then
        (let bead = TrimSpace (BeadID entry) in
         if bead = [] then Inl (MissingBeadID (SessionID entry))
         else if ToLower bead \<in> seen then completedLoop seen completed entries
         else completedLoop (insert (ToLower bead) seen) (completed @ [bead]) entries)
      else if status = StatusFailure then
        (let bead = TrimSpace (BeadID entry) in
         Inl (EndedNeedsHelp (SessionID entry) status (if bead = [] then ''unknown bead'' else bead)))
      else Inl (UnknownStatus (SessionID entry) (Status entry)))"

definition completedBeadsFromLedger :: "ledger_fs \<Rightarrow> string \<Rightarrow> string \<Rightarrow> ledger_error + string list" where
  "completedBeadsFromLedger fs path epicID =
     (case ledgerEntriesForEpic fs path epicID of
        Inl err \<Rightarrow> Inl err
      | Inr entries \<Rightarrow> completedLoop {} [] entries)"

text \<open>
  The words of the specification for \<open>completed_beads\<close>: the first entry in file order
  that is not a success with a bead id decides the failure (\<open>entryError\<close>,
  \<open>firstError\<close>); otherwise the bead ids are made unique case-insensitively, keeping the
  first occurrence of each (\<open>uniqueFold\<close>).
\<close>

definition entryError :: "ledgerEntry \<Rightarrow> ledger_error option" where
  "entryError entry =
     (let status = ToLower (TrimSpace (Status entry)); bead = TrimSpace (BeadID entry) in
      if status = [] then Some (MissingStatus (SessionID entry))
      else if status = ''success'' then
        (if bead = [] then Some (MissingBeadID (SessionID entry)) else None)
      else if status = ''needs_help'' then
        Some (EndedNeedsHelp (SessionID entry) status (if bead = [] then ''unknown bead'' else bead))
      else Some (UnknownStatus (SessionID entry) (Status entry)))"

fun firstError :: "ledgerEntry list \<Rightarrow> ledger_error option" where
  "firstError [] = None"
| "firstError (e # es) = (case entryError e of Some err \<Rightarrow> Some err | None \<Rightarrow> firstError es)"

fun uniqueFold :: "string list \<Rightarrow> string list" where
  "uniqueFold [] = []"
| "uniqueFold (x # xs) = x # uniqueFold (filter (\<lambda>y. ToLower y \<noteq> ToLower x) xs)"

definition matchesEpic :: "string \<Rightarrow> ledgerEntry \<Rightarrow> bool" where
  "matchesEpic epicID e =
     (ToLower (TrimSpace epicID) = [] \<or> EqualFold (TrimSpace (EpicID e)) (ToLower (TrimSpace epicID)))"

subsection \<open>Bead detection\<close>

text \<open>
  \<open>detectBeadID\<close> searches the lower-cased texts with the regular expression
  \<open>QuoteMeta(root) + `-[a-z0-9][a-z0-9\.-]*`\<close>. \<open>FindString\<close> is the leftmost match of
  that expression: the literal, one character of the first class, then as many
  characters of the second class as follow.
\<close>

definition LastIndex :: "string \<Rightarrow> char \<Rightarrow> int" where
  "LastIndex s c =
     (if c \<in> set s then int (length s) - 1 - int (length (takeWhile (\<lambda>x. x \<noteq> c) (rev s))) else - 1)"

definition isTokenStart :: "char \<Rightarrow> bool" where
  "isTokenStart c =
     ((97 \<le> (of_char c :: nat) \<and> (of_char c :: nat) \<le> 122)
      \<or> (48 \<le> (of_char c :: nat) \<and> (of_char c :: nat) \<le> 57))"

definition isTokenRest :: "char \<Rightarrow> bool" where
  "isTokenRest c = (isTokenStart c \<or> c = CHR ''.'' \<or> c = CHR ''-'')"

fun FindString :: "string \<Rightarrow> string \<Rightarrow> string" where
  "FindString lit [] = []"
| "FindString lit (c # cs) =
     (if prefix lit (c # cs)
         \<and> (case drop (length lit) (c # cs) of [] \<Rightarrow> False | h # r \<Rightarrow> isTokenStart h)
      then lit @ takeWhile isTokenRest (drop (length lit) (c # cs))
      else FindString lit cs)"

fun firstMatch :: "string \<Rightarrow> string list \<Rightarrow> string" where
  "firstMatch lit [] = []"
| "firstMatch lit (text # texts) =
     (if text = [] then firstMatch lit texts
      else (let m = FindString lit (ToLower text) in
            if m \<noteq> [] then m else firstMatch lit texts))"

definition epicRoot :: "string \<Rightarrow> string" where
  "epicRoot epicID =
     (let root = ToLower (TrimSpace epicID);
          idx = LastIndex root CHR ''-'';
          root1 = (if idx > 0 then take (nat idx) root else root)
      in if root1 = [] then ToLower epicID else root1)"

definition detectBeadID :: "string \<Rightarrow> string list \<Rightarrow> string" where
  "detectBeadID epicID texts =
     (if ToLower (TrimSpace epicID) = [] then []
      else firstMatch (epicRoot epicID @ ''-'') texts)"

text \<open>
  The root prefix in the words of the specification: the (trimmed) epic id in lower
  case, without its final \<open>-<slug>\<close> segment.
\<close>

definition rootPrefix_spec :: "string \<Rightarrow> string" where
  "rootPrefix_spec epicID =
     (let l = ToLower (TrimSpace epicID) in
      if CHR ''-'' \<in> set l then rev (tl (dropWhile (\<lambda>x. x \<noteq> CHR ''-'') (rev l))) else l)"

text \<open>\<open>executeSession\<close>: the plan's override wins over the detected bead id.\<close>

definition sessionBeadID :: "string \<Rightarrow> string \<Rightarrow> string list \<Rightarrow> string" where
  "sessionBeadID beadIDOverride epicID texts =
     (if beadIDOverride \<noteq> [] then beadIDOverride else detectBeadID epicID texts)"

text \<open>Sample data: the entry of the repository's ledger tests and a small ledger.\<close>

definition baseEntry :: ledgerEntry where
  "baseEntry =
     \<lparr>SchemaVersion = [], RunID = ''run'', SessionID = ''session-1'', RepoRoot = ''/repo'',
      EpicID = ''automatic-octo-barnacle-d4c'', EpicKey = ''automatic'', EpicName = ''Demo'',
      Alias = ''demo'', BeadID = [], Status = ''success'', CommitSummary = '' summary '',
      CommitDetails = ''details'', Escalation = [], StartedAt = 1000000000,
      CompletedAt = 2500000000, DurationMs = 0, ExitCode = 0, TranscriptPath = [],
      CodexBinary = ''codex'', CodexModel = [], CodexSandbox = [], CodexApproval = [],
      CodexExtraArgs = [], ConfigDigest = [], PromptHash = [], Redacted = False,
      OperatorEvents = []\<rparr>"

definition emptyFS :: ledger_fs where
  "emptyFS = \<lparr>files = Map.empty, upgraded = {}\<rparr>"

definition demoLines :: "ledger_line list" where
  "demoLines =
     [EntryLine (baseEntry\<lparr>BeadID := ''automatic-octo-barnacle-d4c.1''\<rparr>),
      BlankLine,
      EntryLine (baseEntry\<lparr>BeadID := ''automatic-octo-barnacle-d4c.2''\<rparr>),
      EntryLine (baseEntry\<lparr>EpicID := ''automatic-octo-barnacle-zzz'',
                           BeadID := ''automatic-octo-barnacle-zzz.1''\<rparr>),
      EntryLine (baseEntry\<lparr>BeadID := '' AUTOMATIC-octo-barnacle-d4c.1''\<rparr>)]"

definition demoFS :: ledger_fs where
  "demoFS = \<lparr>files = [''results.log'' \<mapsto> demoLines], upgraded = {}\<rparr>"

section \<open>Session runner\<close>

datatype SessionState = StateStarting | StateRunning | StateStopping | StateExited

text \<open>
  The errors of a run: what \<open>handle.wait()\<close> returns (an error that carries an exit
  code, or any other error), what \<open>io.Copy\<close> returns (\<open>io.EOF\<close>, \<open>os.ErrClosed\<close> or any
  other error), and the two failures \<open>startWait\<close> reports.
\<close>

datatype wait_error = ExitCodeError int | OtherWaitError string

datatype copy_error = ErrEOF | ErrClosed | OtherCopyError string

datatype run_error = StreamFailed copy_error | RunFailed wait_error

datatype SessionEvent =
    EventLogChunk string
  | EventStateChange SessionState
  | EventExit int "run_error option"

definition eventBufferSize :: nat where
  "eventBufferSize = 64"

text \<open>
  An \<open>io.Writer\<close> handed to the runner is absent (\<open>nil\<close>), collects what is written to
  it, or fails on every write.
\<close>

datatype writer = NilWriter | BufWriter string | FailingWriter

fun writeTo :: "writer \<Rightarrow> string \<Rightarrow> copy_error + writer" where
  "writeTo (BufWriter b) p = Inr (BufWriter (b @ p))"
| "writeTo FailingWriter p = Inl (OtherCopyError ''write failed'')"
| "writeTo NilWriter p = Inr NilWriter"

text \<open>
  The state of one session. \<open>sink\<close> is the content of the buffered event channel and
  \<open>received\<close> what the consumer has taken from it so far. \<open>produced\<close> and \<open>dropped\<close> are
  history variables: every event handed to \<open>eventEmitter.send\<close>, and those of them that
  \<open>send\<close> discarded. Timestamps of events are left out.
\<close>

record session =
  target :: writer
  tee :: writer
  redactor :: "string \<Rightarrow> string"
  builder :: string
  sink :: "SessionEvent list"
  closed :: bool
  received :: "SessionEvent list"
  produced :: "SessionEvent list"
  dropped :: "SessionEvent list"
  copyErr :: "copy_error option"
  handleOpen :: bool
  softStopIssued :: bool
  abortDone :: bool
  ttyInput :: string

text \<open>
  \<open>eventEmitter.send\<close>: a \<open>select\<close> with a \<open>default\<close> branch, so the event is put into
  the channel when the buffer has room and is discarded otherwise, whatever its type.
\<close>

definition send :: "SessionEvent \<Rightarrow> session \<Rightarrow> session" where
  "send evt s =
     (if length (sink s) < eventBufferSize
      then s\<lparr>sink := sink s @ [evt], produced := produced s @ [evt]\<rparr>
      else s\<lparr>produced := produced s @ [evt], dropped := dropped s @ [evt]\<rparr>)"

definition emit_state :: "SessionState \<Rightarrow> session \<Rightarrow> session" where
  "emit_state st s = send (EventStateChange st) s"

definition emit_log :: "string \<Rightarrow> session \<Rightarrow> session" where
  "emit_log chunk s = send (EventLogChunk chunk) s"

definition emit_exit :: "int \<Rightarrow> run_error option \<Rightarrow> session \<Rightarrow> session" where
  "emit_exit code err s = send (EventExit code err) s"

text \<open>The consumer takes the oldest event of the channel, if there is one.\<close>

definition receive :: "session \<Rightarrow> session" where
  "receive s =
     (case sink s of [] \<Rightarrow> s
      | e # es \<Rightarrow> s\<lparr>sink := es, received := received s @ [e]\<rparr>)"

text \<open>
  \<open>eventLogWriter.Write\<close>: the bytes go to the operator's stream as they are, and the
  same bytes are emitted as a log chunk event.
\<close>

definition eventLogWriter_Write :: "string \<Rightarrow> session \<Rightarrow> copy_error option \<times> session" where
  "eventLogWriter_Write p s =
     (if p = [] then (None, s)
      else (case (if target s \<noteq> NilWriter then writeTo (target s) p else Inr (target s)) of
              Inl err \<Rightarrow> (Some err, s)
            | Inr t \<Rightarrow> (None, emit_log p (s\<lparr>target := t\<rparr>))))"

text \<open>
  \<open>streamWriter.Write\<close>: the chunk goes to the live writer first, then its redacted
  form is appended to the builder and written to the tee.
\<close>

definition streamWriter_Write :: "string \<Rightarrow> session \<Rightarrow> copy_error option \<times> session" where
  "streamWriter_Write p s =
     (if p = [] then (None, s)
      else (case eventLogWriter_Write p s of
              (Some err, s1) \<Rightarrow> (Some err, s1)
            | (None, s1) \<Rightarrow>
               (let redacted = redactor s1 p;
                    s2 = s1\<lparr>builder := builder s1 @ redacted\<rparr>
                in if tee s2 \<noteq> NilWriter then
                     (case writeTo (tee s2) redacted of
                        Inl err \<Rightarrow> (Some err, s2)
                      | Inr t \<Rightarrow> (None, s2\<lparr>tee := t\<rparr>))
                   else (None, s2))))"

definition SoftStopMarker :: string where
  "SoftStopMarker = ''[[OBI:SOFT_STOP]]''"

definition formatSoftStopMessage :: "string \<Rightarrow> string \<Rightarrow> string" where
  "formatSoftStopMessage sessionID reason =
     [CHR 0x0A, CHR 0x0A] @ SoftStopMarker @ '' '' @ sessionID @ [CHR 0x0A]
     @ (if TrimSpace reason \<noteq> [] then ''Reason: '' @ TrimSpace reason @ [CHR 0x0A] else [])
     @ ''Please wrap up immediately and emit your fenced report.'' @ [CHR 0x0A, CHR 0x0A]"

datatype control_error = TtyClosed | SessionNotRunning | SignalFailed

text \<open>
  \<open>softStop\<close> writes the marker once and emits \<open>Stopping\<close>; \<open>abort\<close> runs once, signals
  the process (\<open>sigOk\<close> tells whether the signal was delivered) and emits \<open>Stopping\<close> on
  success. Writes to the PTY are taken to succeed.
\<close>

definition softStop :: "string \<Rightarrow> string \<Rightarrow> session \<Rightarrow> control_error option \<times> session" where
  "softStop sessionID reason s =
     (if softStopIssued s then (None, s)
      else if \<not> handleOpen s then (Some TtyClosed, s)
      else (None, emit_state StateStopping
                    (s\<lparr>ttyInput := ttyInput s @ formatSoftStopMessage sessionID reason,
                       softStopIssued := True\<rparr>)))"

definition abort :: "bool \<Rightarrow> session \<Rightarrow> control_error option \<times> session" where
  "abort sigOk s =
     (if abortDone s then (None, s)
      else if \<not> handleOpen s then (Some SessionNotRunning, s\<lparr>abortDone := True\<rparr>)
      else if sigOk then (None, emit_state StateStopping (s\<lparr>abortDone := True\<rparr>))
      else (Some SignalFailed, s\<lparr>abortDone := True\<rparr>))"

text \<open>The \<open>Result\<close> of package interactive.\<close>

record Result =
  SessionID_r :: string
  Prompt_r :: string
  Binary_r :: string
  Args_r :: "string list"
  Output_r :: string
  ExitCode_r :: int
  StartedAt_r :: Time
  CompletedAt_r :: Time

text \<open>
  \<open>finish\<close> stores the result and the error, replaces an exit code of 0 by 1 when the
  run failed, emits the closing state changes and the exit event, and closes the
  channel.
\<close>

definition finishResult :: "Result \<Rightarrow> run_error option \<Rightarrow> Result" where
  "finishResult res runErr =
     (if runErr \<noteq> None \<and> ExitCode_r res = 0 then res\<lparr>ExitCode_r := 1\<rparr> else res)"

definition finish :: "Result \<Rightarrow> run_error option \<Rightarrow> session \<Rightarrow> (Result \<times> run_error option) \<times> session" where
  "finish res runErr s =
     (let result = finishResult res runErr;
          s1 = s\<lparr>handleOpen := False\<rparr>;
          s2 = (if runErr = None then emit_state StateExited s1
                else emit_state StateExited (emit_state StateStopping s1));
          s3 = emit_exit (ExitCode_r result) runErr s2
      in ((result, runErr), s3\<lparr>closed := True\<rparr>))"

text \<open>
  The goroutine of \<open>startWait\<close>, from the two errors it collects: a copy error other
  than \<open>EOF\<close> or \<open>closed\<close> fails the run first; then an exit-code-bearing wait error is
  recorded as the exit code, and any other wait error fails the run. \<open>meta\<close> carries the
  session id, prompt, invocation and timestamps of the result; its output is the
  redacted buffer and its exit code starts at 0. \<open>Wait\<close> returns the stored result and
  error.
\<close>

definition copyFailed :: "copy_error option \<Rightarrow> bool" where
  "copyFailed streamErr =
     (case streamErr of None \<Rightarrow> False | Some e \<Rightarrow> e \<noteq> ErrEOF \<and> e \<noteq> ErrClosed)"

definition exitCodeFrom :: "wait_error \<Rightarrow> int \<times> bool" where
  "exitCodeFrom err = (case err of ExitCodeError code \<Rightarrow> (code, True) | OtherWaitError m \<Rightarrow> (0, False))"

definition startWait ::
  "Result \<Rightarrow> wait_error option \<Rightarrow> copy_error option \<Rightarrow> session
     \<Rightarrow> (Result \<times> run_error option) \<times> session" where
  "startWait meta waitErr streamErr s =
     (let res = meta\<lparr>Output_r := builder s, ExitCode_r := 0\<rparr> in
      if copyFailed streamErr then finish res (Some (StreamFailed (the streamErr))) s
      else (case waitErr of
              None \<Rightarrow> finish res None s
            | Some werr \<Rightarrow>
               (if snd (exitCodeFrom werr)
                then finish (res\<lparr>ExitCode_r := fst (exitCodeFrom werr)\<rparr>) None s
                else finish res (Some (RunFailed werr)) s)))"

definition Wait :: "(Result \<times> run_error option) \<times> session \<Rightarrow> Result \<times> run_error option" where
  "Wait out = fst out"

text \<open>
  \<open>Start\<close>: after the argument checks the channel is created and \<open>Starting\<close> is
  emitted; \<open>launchOk\<close> tells whether the preflight check and the launch succeed, and
  then \<open>Running\<close> is emitted and the stream writer is set up with the redactor of the
  configured secrets.
\<close>

datatype start_error = BinaryRequired | SessionIDRequired | PromptRequired | LaunchFailed

definition newSession :: "writer \<Rightarrow> writer \<Rightarrow> string list \<Rightarrow> session" where
  "newSession stdout teeW secrets =
     \<lparr>target = stdout, tee = teeW, redactor = newSecretRedactor secrets, builder = [],
      sink = [], closed = False, received = [], produced = [], dropped = [],
      copyErr = None, handleOpen = False, softStopIssued = False, abortDone = False,
      ttyInput = []\<rparr>"

definition Start ::
  "string \<Rightarrow> string \<Rightarrow> string \<Rightarrow> writer \<Rightarrow> writer \<Rightarrow> string list \<Rightarrow> bool \<Rightarrow> start_error + session" where
  "Start binary sessionID prompt stdout teeW secrets launchOk =
     (if binary = [] then Inl BinaryRequired
      else if TrimSpace sessionID = [] then Inl SessionIDRequired
      else if TrimSpace prompt = [] then Inl PromptRequired
      else (let s = emit_state StateStarting (newSession stdout teeW secrets) in
            if \<not> launchOk then Inl LaunchFailed
            else Inr (emit_state StateRunning (s\<lparr>handleOpen := True\<rparr>))))"

text \<open>
  One run is a schedule of the concurrent activities between \<open>Start\<close> and the end of
  the child: the copier delivering a PTY chunk (it stops at the first write error, as
  \<open>io.Copy\<close> does), the consumer taking an event, and the operator's soft stop and abort.
\<close>

datatype step = PtyChunk string | Consume | OpSoftStop string | OpAbort bool

fun runStep :: "string \<Rightarrow> step \<Rightarrow> session \<Rightarrow> session" where
  "runStep sid (PtyChunk p) s =
     (if copyErr s \<noteq> None then s
      else (case streamWriter_Write p s of (err, s') \<Rightarrow> s'\<lparr>copyErr := err\<rparr>))"
| "runStep sid Consume s = receive s"
| "runStep sid (OpSoftStop reason) s = snd (softStop sid reason s)"
| "runStep sid (OpAbort sigOk) s = snd (abort sigOk s)"

definition runSteps :: "string \<Rightarrow> step list \<Rightarrow> session \<Rightarrow> session" where
  "runSteps sid steps s = foldl (\<lambda>s st. runStep sid st s) s steps"

text \<open>
  The end of the run: the copier's error is the write error met, or else the error
  \<open>readErr\<close> of the final read (\<open>None\<close> when the PTY ended with \<open>EOF\<close>, which \<open>io.Copy\<close>
  reports as success).
\<close>

definition endRun ::
  "Result \<Rightarrow> wait_error option \<Rightarrow> copy_error option \<Rightarrow> session
     \<Rightarrow> (Result \<times> run_error option) \<times> session" where
  "endRun meta waitErr readErr s =
     startWait meta waitErr (case copyErr s of Some e \<Rightarrow> Some e | None \<Rightarrow> readErr) s"

text \<open>
  What the consumer sees of a finished session: the events it received, then those
  still buffered when the channel was closed.
\<close>

definition observed :: "session \<Rightarrow> SessionEvent list" where
  "observed s = received s @ sink s"

definition isExit :: "SessionEvent \<Rightarrow> bool" where
  "isExit e = (case e of EventExit code err \<Rightarrow> True | _ \<Rightarrow> False)"

fun logChunks :: "SessionEvent list \<Rightarrow> string list" where
  "logChunks [] = []"
| "logChunks (EventLogChunk c # es) = c # logChunks es"
| "logChunks (e # es) = logChunks es"

definition baseResult :: Result where
  "baseResult =
     \<lparr>SessionID_r = ''session-xyz'', Prompt_r = ''body'', Binary_r = ''codex'', Args_r = [],
      Output_r = [], ExitCode_r = 0, StartedAt_r = 1000000000, CompletedAt_r = 2500000000\<rparr>"

text \<open>The session as \<open>Start\<close> returns it, and the non-empty chunks a schedule delivers.\<close>

definition started :: "writer \<Rightarrow> writer \<Rightarrow> string list \<Rightarrow> session" where
  "started stdout teeW secrets =
     emit_state StateRunning
       ((emit_state StateStarting (newSession stdout teeW secrets))\<lparr>handleOpen := True\<rparr>)"

fun nonEmptyChunks :: "step list \<Rightarrow> string list" where
  "nonEmptyChunks [] = []"
| "nonEmptyChunks (PtyChunk p # steps) = (if p = [] then nonEmptyChunks steps else p # nonEmptyChunks steps)"
| "nonEmptyChunks (st # steps) = nonEmptyChunks steps"

text \<open>
  Sample runs: a session with the secret \<open>SECRET\<close> whose output is read by a consumer
  that keeps up, and a session whose consumer reads nothing while 62 chunks arrive.
\<close>

definition leakRun :: session where
  "leakRun =
     snd (endRun baseResult None None
       (runSteps ''sid'' [PtyChunk ''hello SECRET world'', Consume, Consume, Consume]
          (started (BufWriter []) (BufWriter []) [''SECRET''])))"

definition stalledRun :: session where
  "stalledRun =
     snd (endRun baseResult None None
       (runSteps ''sid'' (replicate 62 (PtyChunk ''x''))
          (started (BufWriter []) (BufWriter []) [])))"

section \<open>Fenced-report parser\<close>

record fencedResult =
  SessionID_f :: string
  Status_f :: string
  CommitMsg_f :: string
  Details_f :: string
  Escalation_f :: string

definition emptyResult :: fencedResult where
  "emptyResult = \<lparr>SessionID_f = [], Status_f = [], CommitMsg_f = [], Details_f = [], Escalation_f = []\<rparr>"

datatype parserState = stateSeeking | stateInBody | stateFinished

record Parser =
  expectedID_p :: string
  state_p :: parserState
  hold_p :: string
  result_p :: fencedResult
  done_p :: bool
  collectingDetails_p :: bool
  details_p :: string

datatype parse_error =
    FenceMissingSessionID
  | FenceSessionMismatch string string
  | MalformedLine string
  | StatusFieldEmpty
  | InvalidStatus string
  | CommitMsgFieldEmpty
  | DetailsSpecifiedTwice
  | DetailsFieldEmpty
  | UnknownField string
  | DetailsBlockEmpty
  | ReportMissingSessionID
  | ReportMissingStatus
  | ReportMissingCommitMsg
  | ReportMissingDetails
  | EscalationRequired
  | ReportNotFound
  | ReportIncomplete
  | UnexpectedParserState

definition NewParser :: "string \<Rightarrow> Parser" where
  "NewParser sessionID =
     \<lparr>expectedID_p = TrimSpace sessionID, state_p = stateSeeking, hold_p = [],
      result_p = emptyResult, done_p = False, collectingDetails_p = False, details_p = []\<rparr>"

definition fence :: string where
  "fence = ''```''"

definition fencePrefix :: string where
  "fencePrefix = ''```obi:''"

definition validateResult :: "fencedResult \<Rightarrow> parse_error option" where
  "validateResult r =
     (if SessionID_f r = [] then Some ReportMissingSessionID
      else if Status_f r = [] then Some ReportMissingStatus
      else if CommitMsg_f r = [] then Some ReportMissingCommitMsg
      else if Details_f r = [] then Some ReportMissingDetails
      else if Status_f r = StatusFailure \<and> TrimSpace (Escalation_f r) = [] then Some EscalationRequired
      else None)"

definition isFieldLine :: "string \<Rightarrow> bool" where
  "isFieldLine line = (line \<noteq> [] \<and> \<not> HasPrefix line ''`'' \<and> Contains line '':'')"

definition stripIndent :: "string \<Rightarrow> string" where
  "stripIndent line =
     (if line = [] then []
      else if HasPrefix line [CHR 0x09] then drop 1 line
      else if HasPrefix line ''  '' then drop 2 line
      else if HasPrefix line '' '' then drop 1 line
      else line)"

definition startsIndented :: "string \<Rightarrow> bool" where
  "startsIndented line = (case line of [] \<Rightarrow> False | c # cs \<Rightarrow> c = CHR '' '' \<or> c = CHR 0x09)"

text \<open>
  The methods of the parser mutate it and may return an error; each is a function from
  the parser to the error (if any) and the parser as the method leaves it.
\<close>

definition finishDetails :: "Parser \<Rightarrow> parse_error option \<times> Parser" where
  "finishDetails p =
     (let text = TrimRight (details_p p) [CHR 0x0A] in
      if TrimSpace text = [] then (Some DetailsBlockEmpty, p)
      else (None, p\<lparr>result_p := (result_p p)\<lparr>Details_f := text\<rparr>\<rparr>))"

definition processField :: "string \<Rightarrow> Parser \<Rightarrow> parse_error option \<times> Parser" where
  "processField line p =
     (if CHR '':'' \<notin> set line then (Some (MalformedLine line), p)
      else
        (let key = ToLower (TrimSpace (takeWhile (\<lambda>c. c \<noteq> CHR '':'') line));
             val = TrimSpace (drop 1 (dropWhile (\<lambda>c. c \<noteq> CHR '':'') line))
         in if key = ''status'' then
              (if val = [] then (Some StatusFieldEmpty, p)
               else if ToLower val \<noteq> StatusSuccess \<and> ToLower val \<noteq> StatusFailure
                 then (Some (InvalidStatus val), p)
               else (None, p\<lparr>result_p := (result_p p)\<lparr>Status_f := ToLower val\<rparr>\<rparr>))
            else if key = ''commit_msg'' then
              (if val = [] then (Some CommitMsgFieldEmpty, p)
               else (None, p\<lparr>result_p := (result_p p)\<lparr>CommitMsg_f := val\<rparr>\<rparr>))
            else if key = ''details'' then
              (if Details_f (result_p p) \<noteq> [] \<or> collectingDetails_p p then (Some DetailsSpecifiedTwice, p)
               else if val = [] then (Some DetailsFieldEmpty, p)
               else if val = ''|'' then (None, p\<lparr>collectingDetails_p := True, details_p := []\<rparr>)
               else (None, p\<lparr>result_p := (result_p p)\<lparr>Details_f := val\<rparr>\<rparr>))
            else if key = ''escalation'' then
              (None, p\<lparr>result_p := (result_p p)\<lparr>Escalation_f := val\<rparr>\<rparr>)
            else (Some (UnknownField key), p)))"

text \<open>
  The closing of the report, shared by \<open>handleLine\<close> and \<open>consumeDetailLine\<close>: validate,
  then mark the parser done and finished.
\<close>

definition closeReport :: "Parser \<Rightarrow> parse_error option \<times> Parser" where
  "closeReport p =
     (case validateResult (result_p p) of
        Some err \<Rightarrow> (Some err, p)
      | None \<Rightarrow> (None, p\<lparr>done_p := True, state_p := stateFinished\<rparr>))"

definition consumeDetailLine :: "string \<Rightarrow> Parser \<Rightarrow> (bool \<times> parse_error option) \<times> Parser" where
  "consumeDetailLine line p =
     (let trimmed = TrimSpace line in
      if trimmed = [] then ((True, None), p\<lparr>details_p := details_p p @ [CHR 0x0A]\<rparr>)
      else if trimmed = fence then
        (case finishDetails p of
           (Some err, p1) \<Rightarrow> ((False, Some err), p1)
         | (None, p1) \<Rightarrow>
            (case closeReport (p1\<lparr>collectingDetails_p := False\<rparr>) of
               (Some err, p2) \<Rightarrow> ((False, Some err), p2)
             | (None, p2) \<Rightarrow> ((True, None), p2)))
      else if \<not> startsIndented line \<and> isFieldLine trimmed then
        (case finishDetails p of
           (Some err, p1) \<Rightarrow> ((False, Some err), p1)
         | (None, p1) \<Rightarrow> ((False, None), p1\<lparr>collectingDetails_p := False\<rparr>))
      else ((True, None), p\<lparr>details_p := details_p p @ stripIndent line @ [CHR 0x0A]\<rparr>))"

definition handleLine :: "string \<Rightarrow> Parser \<Rightarrow> parse_error option \<times> Parser" where
  "handleLine line p =
     (let trimmed = TrimSpace line in
      case state_p p of
        stateSeeking \<Rightarrow>
          (if HasPrefix (ToLower trimmed) fencePrefix then
             (let sessionID = TrimSpace (drop (length fencePrefix) trimmed) in
              if sessionID = [] then (Some FenceMissingSessionID, p)
              else if expectedID_p p \<noteq> [] \<and> sessionID \<noteq> expectedID_p p
                then (Some (FenceSessionMismatch sessionID (expectedID_p p)), p)
              else (None, p\<lparr>state_p := stateInBody,
                              result_p := emptyResult\<lparr>SessionID_f := sessionID\<rparr>\<rparr>))
           else (None, p))
      | stateInBody \<Rightarrow>
          (if trimmed = fence then
             (if collectingDetails_p p then
                (case finishDetails p of
                   (Some err, p1) \<Rightarrow> (Some err, p1)
                 | (None, p1) \<Rightarrow> closeReport (p1\<lparr>collectingDetails_p := False\<rparr>))
              else closeReport p)
           else if collectingDetails_p p then
             (case consumeDetailLine line p of
                ((consumed, Some err), p1) \<Rightarrow> (Some err, p1)
              | ((consumed, None), p1) \<Rightarrow>
                 (if consumed then (None, p1)
                  else if trimmed = [] then (None, p1)
                  else processField trimmed p1))
           else if trimmed = [] then (None, p)
           else processField trimmed p)
      | stateFinished \<Rightarrow> (None, p))"

text \<open>
  The result of \<open>Feed\<close> and \<open>Finalize\<close>: the report, the \<open>done\<close> flag and the error.
\<close>

type_synonym feed_out = "fencedResult \<times> bool \<times> parse_error option"

definition normalizeNewlines :: "string \<Rightarrow> string" where
  "normalizeNewlines chunk =
     ReplaceAll (ReplaceAll chunk [CHR 0x0D, CHR 0x0A] [CHR 0x0A]) [CHR 0x0D] [CHR 0x0A]"

text \<open>
  The loop of \<open>Feed\<close> takes the text of \<open>hold\<close> up to the next line feed as one line,
  keeps the rest in \<open>hold\<close>, and handles the line; it stops at an error, when the report
  is done, or when no line feed is left. \<open>feedLines line rest\<close> walks through \<open>rest\<close> with
  the line read so far.
\<close>

fun feedLines :: "string \<Rightarrow> string \<Rightarrow> Parser \<Rightarrow> feed_out \<times> Parser" where
  "feedLines line [] p = ((emptyResult, False, None), p\<lparr>hold_p := line\<rparr>)"
| "feedLines line (c # cs) p =
     (if c = CHR 0x0A then
        (case handleLine line (p\<lparr>hold_p := cs\<rparr>) of
           (Some err, p1) \<Rightarrow> ((emptyResult, False, Some err), p1)
         | (None, p1) \<Rightarrow>
            (if done_p p1 then ((result_p p1, True, None), p1) else feedLines [] cs p1))
      else feedLines (line @ [c]) cs p)"

definition Feed :: "string \<Rightarrow> Parser \<Rightarrow> feed_out \<times> Parser" where
  "Feed chunk p =
     (if chunk = [] \<or> done_p p then
        (if done_p p then ((result_p p, True, None), p) else ((emptyResult, False, None), p))
      else feedLines [] (hold_p p @ normalizeNewlines chunk) p)"

definition Finalize :: "Parser \<Rightarrow> feed_out \<times> Parser" where
  "Finalize p =
     (if done_p p then ((result_p p, True, None), p)
      else (case (if hold_p p \<noteq> [] then
                    (case handleLine (hold_p p) p of
                       (Some err, p1) \<Rightarrow> (Some err, p1)
                     | (None, p1) \<Rightarrow> (None, p1\<lparr>hold_p := []\<rparr>))
                  else (None, p)) of
              (Some err, p1) \<Rightarrow> ((emptyResult, False, Some err), p1)
            | (None, p1) \<Rightarrow>
               (if done_p p1 then ((result_p p1, True, None), p1)
                else (case state_p p1 of
                        stateSeeking \<Rightarrow> ((emptyResult, False, Some ReportNotFound), p1)
                      | stateInBody \<Rightarrow> ((emptyResult, False, Some ReportIncomplete), p1)
                      | stateFinished \<Rightarrow> ((emptyResult, False, Some UnexpectedParserState), p1)))))"

text \<open>
  Feeding a stream the way the callers do (the sentinel, the tests): chunk by chunk,
  stopping at the first error or finished report, and finalizing at the end of the
  stream.
\<close>

fun feedAll :: "Parser \<Rightarrow> string list \<Rightarrow> parse_error + fencedResult" where
  "feedAll p [] =
     (case Finalize p of
        ((res, dn, Some err), p1) \<Rightarrow> Inl err
      | ((res, dn, None), p1) \<Rightarrow> (if dn then Inr res else Inl ReportIncomplete))"
| "feedAll p (chunk # chunks) =
     (case Feed chunk p of
        ((res, dn, Some err), p1) \<Rightarrow> Inl err
      | ((res, dn, None), p1) \<Rightarrow> (if dn then Inr res else feedAll p1 chunks))"


definition crlfChunksA :: "string list" where
  "crlfChunksA =
     [''```obi:s'' @ [CHR 0x0D, CHR 0x0A] @ ''status: success'' @ [CHR 0x0D, CHR 0x0A]
      @ ''commit_msg: m'' @ [CHR 0x0D, CHR 0x0A] @ ''details: |'' @ [CHR 0x0D, CHR 0x0A]
      @ ''  a'' @ [CHR 0x0D],
      [CHR 0x0A] @ ''  b'' @ [CHR 0x0D, CHR 0x0A] @ ''```'' @ [CHR 0x0D, CHR 0x0A]]"

section \<open>Legacy footer parser\<close>









section \<open>Session orchestrator\<close>















text \<open>Sample data for the parser: a report that needs help, and a parser inside a body.\<close>

definition needsHelpChunk :: string where
  "needsHelpChunk =
     ''```obi:needs-help'' @ [CHR 0x0A] @ ''status: needs_help'' @ [CHR 0x0A]
     @ ''commit_msg: Blocked'' @ [CHR 0x0A] @ ''details: |'' @ [CHR 0x0A]
     @ ''  waiting'' @ [CHR 0x0A] @ ''escalation: approval needed'' @ [CHR 0x0A]
     @ ''```'' @ [CHR 0x0A]"

definition bodyParser :: Parser where
  "bodyParser =
     (NewParser ''abc'')\<lparr>state_p := stateInBody,
                         result_p := emptyResult\<lparr>SessionID_f := ''abc''\<rparr>\<rparr>"

text \<open>
  Streams that end on an unterminated line: inside the body of a report, and on the
  opening fence of another session.
\<close>

definition truncatedBody :: string where
  "truncatedBody =
     ''```obi:abc'' @ [CHR 0x0A] @ ''status: success'' @ [CHR 0x0A] @ ''foo''"

definition otherFence :: string where
  "otherFence = ''noise'' @ [CHR 0x0A] @ ''```obi:other''"

definition unterminatedField :: string where
  "unterminatedField = ''```obi:abc'' @ [CHR 0x0A] @ ''status: success''"

section \<open>Invariants and auxiliary notions\<close>

text \<open>
  The channel invariant: what the consumer sees is a subsequence of the events
  produced, and all of them when nothing was dropped. Before \<open>finish\<close>, no exit event
  has been produced.
\<close>

definition chanInv :: "session \<Rightarrow> bool" where
  "chanInv s = (subseq (observed s) (produced s) \<and> (dropped s = [] \<longrightarrow> observed s = produced s))"

definition runInv :: "session \<Rightarrow> bool" where
  "runInv s = (chanInv s \<and> filter isExit (produced s) = [])"

text \<open>
  The output pipeline after the chunks \<open>chunks\<close>, with in-memory writers: the events
  and the live stream hold the chunks, the builder and the tee their redacted forms.
\<close>

definition pipeInv :: "(string \<Rightarrow> string) \<Rightarrow> string list \<Rightarrow> session \<Rightarrow> bool" where
  "pipeInv R chunks s =
     (redactor s = R \<and> copyErr s = None
      \<and> logChunks (produced s) = chunks
      \<and> target s = BufWriter (concat chunks)
      \<and> builder s = concat (map R chunks)
      \<and> tee s = BufWriter (concat (map R chunks)))"

text \<open>A \<open>Feed\<close> stopped when it reports an error or a finished report.\<close>

definition stopped :: "feed_out \<Rightarrow> bool" where
  "stopped out = (fst (snd out) \<or> snd (snd out) \<noteq> None)"

text \<open>Parsing a whole text from a parser state: feed all of it, then finalize.\<close>

definition parseText :: "Parser \<Rightarrow> string \<Rightarrow> parse_error + fencedResult" where
  "parseText p t =
     (case feedLines [] (hold_p p @ t) p of
        ((res, dn, Some err), p1) \<Rightarrow> Inl err
      | ((res, dn, None), p1) \<Rightarrow> (if dn then Inr res else feedAll p1 []))"

text \<open>A parser that is done is finished and holds a report that passed validation.\<close>

definition validParser :: "Parser \<Rightarrow> bool" where
  "validParser p = (done_p p \<longrightarrow> state_p p = stateFinished \<and> validateResult (result_p p) = None)"

text \<open>
  \<open>normalizeNewlines\<close> read from left to right (\<open>foldNewlines\<close>), and the chunk sequences
  in which no chunk boundary falls between the \<open>\r\<close> and the \<open>\n\<close> of a CRLF pair.
\<close>

fun foldNewlines :: "string \<Rightarrow> string" where
  "foldNewlines [] = []"
| "foldNewlines [c] = (if c = CHR 0x0D then [CHR 0x0A] else [c])"
| "foldNewlines (c # d # cs) =
     (if c = CHR 0x0D \<and> d = CHR 0x0A then CHR 0x0A # foldNewlines cs
      else if c = CHR 0x0D then CHR 0x0A # foldNewlines (d # cs)
      else c # foldNewlines (d # cs))"

fun splitsNoCRLF :: "string list \<Rightarrow> bool" where
  "splitsNoCRLF [] = True"
| "splitsNoCRLF (c # cs) =
     ((c = [] \<or> last c \<noteq> CHR 0x0D \<or> concat cs = [] \<or> hd (concat cs) \<noteq> CHR 0x0A)
      \<and> splitsNoCRLF cs)"

section \<open>Redaction is idempotent away from the placeholder\<close>

subsection \<open>Facts about \<open>ReplaceAll\<close>\<close>

lemma ReplaceAll_Nil: "old \<noteq> [] \<Longrightarrow> ReplaceAll [] old new = []"
  by (simp add: ReplaceAll.simps)

lemma ReplaceAll_match:
  "old \<noteq> [] \<Longrightarrow> prefix old t \<Longrightarrow>
   ReplaceAll t old new = new @ ReplaceAll (drop (length old) t) old new"
  by (subst ReplaceAll.simps) auto

lemma ReplaceAll_skip:
  "old \<noteq> [] \<Longrightarrow> \<not> prefix old (c # cs) \<Longrightarrow>
   ReplaceAll (c # cs) old new = c # ReplaceAll cs old new"
  by (subst ReplaceAll.simps) simp

lemma prefix_ReplaceAll:
  "CHR ''['' \<notin> set s \<Longrightarrow> old \<noteq> [] \<Longrightarrow> prefix s (ReplaceAll t old placeholder) \<Longrightarrow> prefix s t"
proof (induction t old placeholder arbitrary: s rule: ReplaceAll.induct)
  case (1 t old)
  show ?case
  proof (cases t)
    case Nil
    with 1 show ?thesis by (simp add: ReplaceAll_Nil)
  next
    case (Cons c cs)
    show ?thesis
    proof (cases "prefix old t")
      case True
      with 1(4,5) have "prefix s (CHR ''['' # ''REDACTED]'' @ ReplaceAll (drop (length old) t) old placeholder)"
        by (simp add: ReplaceAll_match placeholder_def)
      with 1(3) have "s = []" by (cases s) auto
      then show ?thesis by simp
    next
      case np: False
      with Cons 1(4) have eq: "ReplaceAll t old placeholder = c # ReplaceAll cs old placeholder"
        by (simp add: ReplaceAll_skip)
      show ?thesis
      proof (cases s)
        case Nil
        then show ?thesis by simp
      next
        case s: (Cons a s')
        with eq 1(5) have a: "a = c" and p: "prefix s' (ReplaceAll cs old placeholder)" by auto
        from 1(3) s have nb: "CHR ''['' \<notin> set s'" by simp
        from Cons have ne: "t \<noteq> []" and tl: "tl t = cs" by auto
        from 1(2)[OF 1(4) ne np nb 1(4)] p tl have "prefix s' cs" by simp
        with a s Cons show ?thesis by simp
      qed
    qed
  qed
qed

lemma sublist_placeholder_append:
  assumes "\<not> collides s" "\<not> sublist s u"
  shows "\<not> sublist s (placeholder @ u)"
proof
  assume "sublist s (placeholder @ u)"
  then consider "sublist s placeholder" | "sublist s u"
    | xs1 xs2 where "s = xs1 @ xs2" "suffix xs1 placeholder" "prefix xs2 u"
    by (auto simp: sublist_append)
  then show False
  proof cases
    case 1 with assms show False by (simp add: collides_def)
  next
    case 2 with assms show False by simp
  next
    case 3
    show False
    proof (cases "xs1 = []")
      case True
      with 3 have "prefix s u" by simp
      with assms show False by auto
    next
      case False
      from 3(2) obtain ys where "placeholder = ys @ xs1" by (auto simp: suffix_def)
      with False have "last xs1 = last placeholder" by (metis last_appendR)
      then have "last xs1 = CHR '']''" by (simp add: placeholder_def)
      with False have "CHR '']'' \<in> set xs1" using last_in_set by metis
      with 3(1) assms show False by (simp add: collides_def)
    qed
  qed
qed

lemma sublist_drop: "\<not> sublist s t \<Longrightarrow> \<not> sublist s (drop n t)"
  by (metis append_take_drop_id sublist_append)

lemma ReplaceAll_no_new:
  "\<not> collides s \<Longrightarrow> old \<noteq> [] \<Longrightarrow> \<not> sublist s t \<Longrightarrow> \<not> sublist s (ReplaceAll t old placeholder)"
proof (induction t old placeholder rule: ReplaceAll.induct)
  case (1 t old)
  have nb: "CHR ''['' \<notin> set s" using 1(3) by (simp add: collides_def)
  have sne: "s \<noteq> []" using 1(5) by auto
  show ?case
  proof (cases t)
    case Nil
    with 1 sne show ?thesis by (simp add: ReplaceAll_Nil)
  next
    case (Cons c cs)
    then have ne: "t \<noteq> []" by simp
    show ?thesis
    proof (cases "prefix old t")
      case True
      from 1(5) have "\<not> sublist s (drop (length old) t)" by (rule sublist_drop)
      from 1(1)[OF 1(4) ne True 1(3) 1(4) this]
      have "\<not> sublist s (ReplaceAll (drop (length old) t) old placeholder)" .
      with 1(3) have "\<not> sublist s (placeholder @ ReplaceAll (drop (length old) t) old placeholder)"
        by (rule sublist_placeholder_append)
      with True 1(4) show ?thesis by (simp add: ReplaceAll_match)
    next
      case np: False
      with Cons 1(4) have eq: "ReplaceAll t old placeholder = c # ReplaceAll cs old placeholder"
        by (simp add: ReplaceAll_skip)
      from 1(5) Cons have "\<not> sublist s (tl t)" by (simp add: sublist_Cons_right)
      from 1(2)[OF 1(4) ne np 1(3) 1(4) this] Cons
      have ih: "\<not> sublist s (ReplaceAll cs old placeholder)" by simp
      have "\<not> prefix s (ReplaceAll t old placeholder)"
        using prefix_ReplaceAll[OF nb 1(4)] 1(5) by auto
      with ih eq show ?thesis by (simp add: sublist_Cons_right)
    qed
  qed
qed

lemma ReplaceAll_removes:
  "\<not> collides s \<Longrightarrow> \<not> sublist s (ReplaceAll t s placeholder)"
proof (induction t s placeholder rule: ReplaceAll.induct)
  case (1 t s)
  have nb: "CHR ''['' \<notin> set s" using 1(3) by (simp add: collides_def)
  have sne: "s \<noteq> []" using 1(3) by (auto simp: collides_def)
  show ?case
  proof (cases t)
    case Nil
    with sne show ?thesis by (simp add: ReplaceAll_Nil)
  next
    case (Cons c cs)
    then have ne: "t \<noteq> []" by simp
    show ?thesis
    proof (cases "prefix s t")
      case True
      from 1(1)[OF sne ne True 1(3)]
      have "\<not> sublist s (ReplaceAll (drop (length s) t) s placeholder)" .
      with 1(3) have "\<not> sublist s (placeholder @ ReplaceAll (drop (length s) t) s placeholder)"
        by (rule sublist_placeholder_append)
      with True sne show ?thesis by (simp add: ReplaceAll_match)
    next
      case np: False
      with Cons sne have eq: "ReplaceAll t s placeholder = c # ReplaceAll cs s placeholder"
        by (simp add: ReplaceAll_skip)
      from 1(2)[OF sne ne np 1(3)] Cons
      have ih: "\<not> sublist s (ReplaceAll cs s placeholder)" by simp
      have "\<not> prefix s (ReplaceAll t s placeholder)"
        using prefix_ReplaceAll[OF nb sne] np by auto
      with ih eq show ?thesis by (simp add: sublist_Cons_right)
    qed
  qed
qed

lemma ReplaceAll_absent:
  "old \<noteq> [] \<Longrightarrow> \<not> sublist old t \<Longrightarrow> ReplaceAll t old new = t"
proof (induction t)
  case Nil
  then show ?case by (simp add: ReplaceAll_Nil)
next
  case (Cons c cs)
  then have "\<not> prefix old (c # cs)" "\<not> sublist old cs" by (auto simp: sublist_Cons_right)
  with Cons show ?case by (simp add: ReplaceAll_skip)
qed

lemma Redact_Nil: "Redact [] t = t"
  by (simp add: Redact_def)

lemma Redact_Cons: "Redact (s # S) t = Redact S (ReplaceAll t s placeholder)"
  by (simp add: Redact_def)

lemma Redact_keeps_absent:
  "\<not> collides x \<Longrightarrow> \<forall>s\<in>set S. s \<noteq> [] \<Longrightarrow> \<not> sublist x t \<Longrightarrow> \<not> sublist x (Redact S t)"
proof (induction S arbitrary: t)
  case Nil
  then show ?case by (simp add: Redact_Nil)
next
  case (Cons s S)
  from Cons.prems have "\<not> sublist x (ReplaceAll t s placeholder)"
    by (intro ReplaceAll_no_new) auto
  with Cons show ?case by (simp add: Redact_Cons)
qed

lemma collides_Nil: "collides []"
  by (simp add: collides_def)

lemma Redact_removes:
  "\<forall>s\<in>set S. \<not> collides s \<Longrightarrow> x \<in> set S \<Longrightarrow> \<not> sublist x (Redact S t)"
proof (induction S arbitrary: t)
  case Nil
  then show ?case by simp
next
  case (Cons s S)
  have ne: "\<forall>s\<in>set S. s \<noteq> []" using Cons.prems(1) collides_Nil by auto
  show ?case
  proof (cases "x = s")
    case True
    with Cons.prems have "\<not> sublist x (ReplaceAll t s placeholder)"
      by (simp add: ReplaceAll_removes)
    with Cons.prems True ne show ?thesis
      by (simp add: Redact_Cons Redact_keeps_absent)
  next
    case False
    with Cons show ?thesis by (simp add: Redact_Cons)
  qed
qed

lemma Redact_fixed:
  "\<forall>s\<in>set S. s \<noteq> [] \<and> \<not> sublist s t \<Longrightarrow> Redact S t = t"
  by (induction S) (simp_all add: Redact_Nil Redact_Cons ReplaceAll_absent)

lemma Redact_idem:
  assumes "\<forall>s\<in>set S. \<not> collides s"
  shows "Redact S (Redact S t) = Redact S t"
proof (rule Redact_fixed)
  show "\<forall>s\<in>set S. s \<noteq> [] \<and> \<not> sublist s (Redact S t)"
    using assms Redact_removes[OF assms] collides_Nil by auto
qed

lemma redactText_fold:
  "fst (foldl redactStep (t, b) S) = Redact (filter (\<lambda>s. s \<noteq> []) (map TrimSpace S)) t"
proof (induction S arbitrary: t b)
  case Nil
  then show ?case by (simp add: Redact_Nil)
next
  case (Cons s S)
  show ?case
  proof (cases "TrimSpace s = []")
    case True
    then have "redactStep (t, b) s = (t, b)" by (simp add: redactStep_def)
    with True Cons show ?thesis by simp
  next
    case False
    show ?thesis
    proof (cases "Contains t (TrimSpace s)")
      case True
      with False have "redactStep (t, b) s = (ReplaceAll t (TrimSpace s) placeholder, True)"
        by (simp add: redactStep_def)
      with False Cons show ?thesis by (simp add: Redact_Cons)
    next
      case nc: False
      with False have "redactStep (t, b) s = (t, b)" by (simp add: redactStep_def)
      moreover from nc False have "ReplaceAll t (TrimSpace s) placeholder = t"
        by (simp add: ReplaceAll_absent Contains_def)
      ultimately show ?thesis using False Cons by (simp add: Redact_Cons)
    qed
  qed
qed

lemma redactText_Redact:
  "fst (redactText t S) = Redact (filter (\<lambda>s. s \<noteq> []) (map TrimSpace S)) t"
  by (simp add: redactText_def redactText_fold Redact_Nil)

subsection \<open>Idempotence of redaction\<close>

text \<open>
  C4 (as amended). Redacting twice equals redacting once, for \<open>secretRedactor.Redact\<close>
  (through \<open>newSecretRedactor\<close>) and for \<open>redactText\<close>, whenever no secret collides with
  the placeholder \<open>[REDACTED]\<close>: no secret (as supplied and as trimmed) contains a
  bracket or is a piece of the placeholder. The replacement is the literal
  \<open>strings.ReplaceAll\<close> of every secret in the order supplied.
\<close>

theorem redact_idempotent:
  assumes "\<forall>s\<in>set S. safe_secret s"
  shows "newSecretRedactor S (newSecretRedactor S T) = newSecretRedactor S T
       \<and> fst (redactText (fst (redactText T S)) S) = fst (redactText T S)"
proof
  have "\<forall>s\<in>set (cleanSecrets S). \<not> collides s"
    using assms by (auto simp: cleanSecrets_def safe_secret_def)
  then show "newSecretRedactor S (newSecretRedactor S T) = newSecretRedactor S T"
    by (simp add: newSecretRedactor_def Let_def Redact_idem)
next
  have "\<forall>s\<in>set (filter (\<lambda>s. s \<noteq> []) (map TrimSpace S)). \<not> collides s"
    using assms by (auto simp: safe_secret_def)
  then show "fst (redactText (fst (redactText T S)) S) = fst (redactText T S)"
    by (simp only: redactText_Redact Redact_idem)
qed

theorem redact_idempotent_witness:
  "safe_secret ''SECRET_TOKEN'' \<and> safe_secret ''abc''
   \<and> newSecretRedactor [''SECRET_TOKEN'', ''abc''] ''say SECRET_TOKEN abcd'' = ''say [REDACTED] [REDACTED]d''
   \<and> newSecretRedactor [''SECRET_TOKEN'', ''abc'']
        (newSecretRedactor [''SECRET_TOKEN'', ''abc''] ''say SECRET_TOKEN abcd'')
       = newSecretRedactor [''SECRET_TOKEN'', ''abc''] ''say SECRET_TOKEN abcd''"
proof -
  have s: "safe_secret ''SECRET_TOKEN''" "safe_secret ''abc''"
    by code_simp+
  then have h: "\<forall>s\<in>set [''SECRET_TOKEN'', ''abc'']. safe_secret s"
    by simp
  have v: "newSecretRedactor [''SECRET_TOKEN'', ''abc''] ''say SECRET_TOKEN abcd'' = ''say [REDACTED] [REDACTED]d''"
    by code_simp
  from redact_idempotent[OF h, of "''say SECRET_TOKEN abcd''"] s v show ?thesis
    by blast
qed

text \<open>
  The claim as stated (any non-empty secrets) fails: the secret \<open>E\<close> occurs in the
  placeholder, so a second pass redacts the placeholder written by the first.
\<close>

theorem redact_idempotent_counterexample:
  "newSecretRedactor [''E''] ''E'' = ''[REDACTED]''
   \<and> newSecretRedactor [''E''] (newSecretRedactor [''E''] ''E'') = ''[R[REDACTED]DACT[REDACTED]D]''
   \<and> fst (redactText (fst (redactText ''E'' [''E''])) [''E'']) \<noteq> fst (redactText ''E'' [''E''])"
  by code_simp

section \<open>Ledger entries\<close>

lemma TrimRightFunc_idem: "TrimRightFunc f (TrimRightFunc f s) = TrimRightFunc f s"
  by (simp add: TrimRightFunc_def dropWhile_idem)

lemma TrimRightFunc_hd:
  "s \<noteq> [] \<Longrightarrow> \<not> f (hd s) \<Longrightarrow> TrimRightFunc f s \<noteq> [] \<and> hd (TrimRightFunc f s) = hd s"
proof (induction s rule: rev_induct)
  case Nil
  then show ?case by simp
next
  case (snoc x xs)
  show ?case
  proof (cases "f x")
    case False
    then show ?thesis using snoc.prems by (simp add: TrimRightFunc_def)
  next
    case True
    then have eq: "TrimRightFunc f (xs @ [x]) = TrimRightFunc f xs" by (simp add: TrimRightFunc_def)
    from True snoc.prems have "xs \<noteq> []" by (cases xs) auto
    with snoc eq show ?thesis by (cases xs) auto
  qed
qed

lemma TrimSpace_idem: "TrimSpace (TrimSpace s) = TrimSpace s"
proof -
  let ?l = "dropWhile isSpace s"
  let ?t = "TrimRightFunc isSpace ?l"
  have "dropWhile isSpace ?t = ?t"
  proof (cases "?l = []")
    case True
    then have "?t = []" by (simp only: TrimRightFunc_def rev.simps dropWhile.simps)
    then show ?thesis by (simp only: dropWhile.simps)
  next
    case False
    then have "\<not> isSpace (hd ?l)" by (metis hd_dropWhile)
    with False have "?t \<noteq> [] \<and> hd ?t = hd ?l" by (rule TrimRightFunc_hd)
    with \<open>\<not> isSpace (hd ?l)\<close> show ?thesis by (cases ?t) auto
  qed
  then show ?thesis by (simp add: TrimSpace_def TrimLeftFunc_def TrimRightFunc_idem)
qed

lemma durationMillis_eq:
  "durationMillis s e =
     (if s = 0 \<or> e = 0 then 0 else min (2 ^ 63 - 1) (max 0 (e - s)) div 1000000)"
  by (simp add: durationMillis_def IsZero_def Before_def Sub_def Milliseconds_def
      maxDuration_def minDuration_def Let_def)

text \<open>
  C9 (as amended). The record persisted by \<open>appendLedgerEntry\<close> is the last line of the
  file. Its \<open>duration_ms\<close> is 0 when either timestamp is the zero time; otherwise it is
  \<open>max(0, completed_at - started_at)\<close> in whole milliseconds, the difference saturating
  at the largest \<open>Duration\<close>. Its \<open>commit_summary\<close>, \<open>commit_details\<close> and \<open>escalation\<close>
  are the whitespace-trimmed fields of the entry supplied, and its \<open>schema_version\<close> is
  the current version string.
\<close>

theorem appendLedgerEntry_invariants:
  assumes "appendLedgerEntry path entry fs = Inr fs'"
  shows "\<exists>ls stored. files fs' path = Some (ls @ [EntryLine stored])
     \<and> DurationMs stored =
         (if StartedAt entry = 0 \<or> CompletedAt entry = 0 then 0
          else min (2 ^ 63 - 1) (max 0 (CompletedAt entry - StartedAt entry)) div 1000000)
     \<and> CommitSummary stored = TrimSpace (CommitSummary entry)
     \<and> CommitDetails stored = TrimSpace (CommitDetails entry)
     \<and> Escalation stored = TrimSpace (Escalation entry)
     \<and> TrimSpace (CommitSummary stored) = CommitSummary stored
     \<and> TrimSpace (CommitDetails stored) = CommitDetails stored
     \<and> TrimSpace (Escalation stored) = Escalation stored
     \<and> SchemaVersion stored = ''obi.v2''"
proof -
  from assms obtain ls where "files fs' path = Some (ls @ [EntryLine (prepareEntry entry)])"
    by (auto simp: appendLedgerEntry_def Let_def split: if_splits sum.splits)
  moreover have "DurationMs (prepareEntry entry) =
         (if StartedAt entry = 0 \<or> CompletedAt entry = 0 then 0
          else min (2 ^ 63 - 1) (max 0 (CompletedAt entry - StartedAt entry)) div 1000000)"
    by (simp add: prepareEntry_def durationMillis_eq)
  moreover have "CommitSummary (prepareEntry entry) = TrimSpace (CommitSummary entry)"
    "CommitDetails (prepareEntry entry) = TrimSpace (CommitDetails entry)"
    "Escalation (prepareEntry entry) = TrimSpace (Escalation entry)"
    "SchemaVersion (prepareEntry entry) = ''obi.v2''"
    by (simp_all add: prepareEntry_def ledgerSchemaVersion_def)
  ultimately show ?thesis
    by (simp add: TrimSpace_idem)
qed

lemma append_baseEntry:
  "appendLedgerEntry ''results.log'' e emptyFS =
     Inr \<lparr>files = [''results.log'' \<mapsto> [EntryLine (prepareEntry e)]], upgraded = {''results.log''}\<rparr>"
  by (simp add: appendLedgerEntry_def ensureLedgerSchema_def emptyFS_def ledgerNeedsUpgrade_def
      TrimSpace_def TrimLeftFunc_def TrimRightFunc_def isSpace_def)

theorem appendLedgerEntry_invariants_witness:
  "appendLedgerEntry ''results.log'' baseEntry emptyFS =
     Inr \<lparr>files = [''results.log'' \<mapsto> [EntryLine (prepareEntry baseEntry)]],
          upgraded = {''results.log''}\<rparr>
   \<and> DurationMs (prepareEntry baseEntry) = 1500
   \<and> CommitSummary (prepareEntry baseEntry) = ''summary''
   \<and> (\<exists>ls stored. [''results.log'' \<mapsto> [EntryLine (prepareEntry baseEntry)]] ''results.log''
          = Some (ls @ [EntryLine stored])
        \<and> DurationMs stored = 1500 \<and> SchemaVersion stored = ''obi.v2'')"
proof -
  note a = append_baseEntry[of baseEntry]
  have d: "DurationMs (prepareEntry baseEntry) = 1500"
    by (simp add: prepareEntry_def baseEntry_def durationMillis_eq)
  have c: "CommitSummary (prepareEntry baseEntry) = ''summary''"
    by (simp add: prepareEntry_def baseEntry_def TrimSpace_def TrimLeftFunc_def
        TrimRightFunc_def isSpace_def)
  have t: "StartedAt baseEntry = 1000000000" "CompletedAt baseEntry = 2500000000"
    by (simp_all add: baseEntry_def)
  from appendLedgerEntry_invariants[OF a] obtain ls stored where
    "[''results.log'' \<mapsto> [EntryLine (prepareEntry baseEntry)]] ''results.log''
          = Some (ls @ [EntryLine stored])"
    "DurationMs stored = 1500" "SchemaVersion stored = ''obi.v2''"
    by (auto simp: t)
  with a d c show ?thesis by blast
qed

text \<open>
  As stated for any timestamps, the claim fails at the zero time: an entry started at
  the zero time and completed 5 ms later is stored with \<open>duration_ms = 0\<close>, not 5.
\<close>

theorem appendLedgerEntry_duration_counterexample:
  "appendLedgerEntry ''results.log'' (baseEntry\<lparr>StartedAt := 0, CompletedAt := 5000000\<rparr>) emptyFS =
     Inr \<lparr>files = [''results.log'' \<mapsto>
                     [EntryLine (prepareEntry (baseEntry\<lparr>StartedAt := 0, CompletedAt := 5000000\<rparr>))]],
          upgraded = {''results.log''}\<rparr>
   \<and> DurationMs (prepareEntry (baseEntry\<lparr>StartedAt := 0, CompletedAt := 5000000\<rparr>)) = 0
   \<and> max 0 (5000000 - 0) div 1000000 = (5::int)"
  by (simp add: append_baseEntry prepareEntry_def durationMillis_eq)

section \<open>Completed beads\<close>

lemma completedLoop_spec:
  "completedLoop seen completed entries =
     (case firstError entries of
        Some err \<Rightarrow> Inl err
      | None \<Rightarrow> Inr (completed @ uniqueFold (filter (\<lambda>b. ToLower b \<notin> seen) (map (\<lambda>e. TrimSpace (BeadID e)) entries))))"
proof (induction entries arbitrary: seen completed)
  case Nil
  then show ?case by simp
next
  case (Cons e es)
  show ?case
  proof (cases "entryError e")
    case (Some err)
    then show ?thesis
      by (auto simp: entryError_def Let_def StatusSuccess_def StatusFailure_def split: if_splits)
  next
    case None
    then have st: "ToLower (TrimSpace (Status e)) = ''success''" and b: "TrimSpace (BeadID e) \<noteq> []"
      by (auto simp: entryError_def Let_def split: if_splits)
    let ?b = "TrimSpace (BeadID e)"
    show ?thesis
    proof (cases "ToLower ?b \<in> seen")
      case True
      with st b None Cons.IH[of seen completed] show ?thesis
        by (simp add: Let_def StatusSuccess_def split: option.splits)
    next
      case False
      have f: "filter (\<lambda>y. ToLower y \<noteq> ToLower ?b) (filter (\<lambda>b. ToLower b \<notin> seen) xs)
             = filter (\<lambda>b. ToLower b \<notin> insert (ToLower ?b) seen) xs" for xs
        by (induction xs) auto
      from False st b None Cons.IH[of "insert (ToLower ?b) seen" "completed @ [?b]"] show ?thesis
        by (simp add: Let_def StatusSuccess_def conj_commute split: option.splits)
    qed
  qed
qed

lemma scanEntries_good:
  "BadLine \<notin> set ls \<Longrightarrow>
   scanEntries lowerEpic ls =
     Inr (filter (\<lambda>e. lowerEpic = [] \<or> EqualFold (TrimSpace (EpicID e)) lowerEpic) (lineEntries ls))"
  by (induction lowerEpic ls rule: scanEntries.induct) auto

text \<open>
  C8. \<open>completedBeadsFromLedger\<close> iterates the ledger entries that match the epic, in
  file order. It fails with the error of the first entry that has an empty status, is
  a success without bead id, is a \<open>needs_help\<close> entry, or has an unknown status; when
  there is no such entry it returns the (trimmed) bead ids of the success entries, made
  unique case-insensitively in first-seen order.
\<close>

theorem completedBeadsFromLedger_spec:
  assumes "files fs path = Some ls" and "BadLine \<notin> set ls"
  shows "completedBeadsFromLedger fs path epicID =
     (let entries = filter (matchesEpic epicID) (lineEntries ls) in
      case firstError entries of
        Some err \<Rightarrow> Inl err
      | None \<Rightarrow> Inr (uniqueFold (map (\<lambda>e. TrimSpace (BeadID e)) entries)))"
proof -
  have m: "matchesEpic epicID = (\<lambda>e. ToLower (TrimSpace epicID) = [] \<or>
             EqualFold (TrimSpace (EpicID e)) (ToLower (TrimSpace epicID)))"
    by (rule ext) (simp add: matchesEpic_def)
  show ?thesis using assms
    by (simp add: completedBeadsFromLedger_def ledgerEntriesForEpic_def scanEntries_good
        completedLoop_spec m Let_def split: option.splits)
qed

theorem completedBeadsFromLedger_spec_witness:
  "files demoFS ''results.log'' = Some demoLines \<and> BadLine \<notin> set demoLines
   \<and> completedBeadsFromLedger demoFS ''results.log'' ''automatic-octo-barnacle-D4C''
       = Inr [''automatic-octo-barnacle-d4c.1'', ''automatic-octo-barnacle-d4c.2'']
   \<and> completedBeadsFromLedger demoFS ''results.log'' ''automatic-octo-barnacle-D4C'' =
     (let entries = filter (matchesEpic ''automatic-octo-barnacle-D4C'') (lineEntries demoLines) in
      case firstError entries of
        Some err \<Rightarrow> Inl err
      | None \<Rightarrow> Inr (uniqueFold (map (\<lambda>e. TrimSpace (BeadID e)) entries)))"
proof -
  have f: "files demoFS ''results.log'' = Some demoLines"
    by (simp add: demoFS_def)
  have b: "BadLine \<notin> set demoLines"
    by (simp add: demoLines_def)
  have v: "completedBeadsFromLedger demoFS ''results.log'' ''automatic-octo-barnacle-D4C''
       = Inr [''automatic-octo-barnacle-d4c.1'', ''automatic-octo-barnacle-d4c.2'']"
    by code_simp
  from completedBeadsFromLedger_spec[OF f b, of "''automatic-octo-barnacle-D4C''"] f b v
  show ?thesis by simp
qed

section \<open>Detected bead ids\<close>

lemma toLower_not_upper: "\<not> isUpper (toLowerChar c)"
  by (auto simp: toLowerChar_def isUpper_def)

lemma toLowerChar_idem: "toLowerChar (toLowerChar c) = toLowerChar c"
  using toLower_not_upper[of c] by (simp add: toLowerChar_def)

lemma ToLower_idem: "ToLower (ToLower s) = ToLower s"
  by (simp add: ToLower_def toLowerChar_idem)

lemma ToLower_append: "ToLower (a @ b) = ToLower a @ ToLower b"
  by (simp add: ToLower_def)

lemma ToLower_take: "ToLower (take n (ToLower s)) = take n (ToLower s)"
  by (simp add: ToLower_def take_map toLowerChar_idem)

lemma isTokenRest_lower: "isTokenRest c \<Longrightarrow> toLowerChar c = c"
  by (auto simp: isTokenRest_def isTokenStart_def toLowerChar_def isUpper_def)

lemma ToLower_token: "ToLower (takeWhile isTokenRest r) = takeWhile isTokenRest r"
  unfolding ToLower_def by (rule map_idI) (auto dest: set_takeWhileD intro: isTokenRest_lower)

lemma ToLower_dash: "ToLower (CHR ''-'' # s) = CHR ''-'' # ToLower s"
  by (simp add: ToLower_def toLowerChar_def isUpper_def)

lemma FindString_shape:
  "FindString lit t = [] \<or> (\<exists>r. FindString lit t = lit @ takeWhile isTokenRest r)"
  by (induction t) auto

lemma firstMatch_shape:
  "firstMatch lit texts = [] \<or> (\<exists>r. firstMatch lit texts = lit @ takeWhile isTokenRest r)"
proof (induction texts)
  case Nil
  then show ?case by simp
next
  case (Cons t ts)
  from FindString_shape[of lit "ToLower t"] Cons show ?case
    by (auto simp: Let_def)
qed

lemma epicRoot_lower: "ToLower (epicRoot e) = epicRoot e"
  by (simp add: epicRoot_def Let_def ToLower_idem ToLower_take)

lemma root_split:
  assumes "l = a @ CHR ''-'' # b" "CHR ''-'' \<notin> set b"
  shows "LastIndex l CHR ''-'' = int (length a)"
    and "rev (tl (dropWhile (\<lambda>x. x \<noteq> CHR ''-'') (rev l))) = a"
proof -
  have tw: "takeWhile (\<lambda>x. x \<noteq> CHR ''-'') (rev b @ CHR ''-'' # rev a) = rev b"
    using assms(2) by (subst takeWhile_append2) auto
  have dw: "dropWhile (\<lambda>x. x \<noteq> CHR ''-'') (rev b @ CHR ''-'' # rev a) = CHR ''-'' # rev a"
    using assms(2) by (subst dropWhile_append2) auto
  show "LastIndex l CHR ''-'' = int (length a)"
    using assms(1) tw by (simp add: LastIndex_def)
  show "rev (tl (dropWhile (\<lambda>x. x \<noteq> CHR ''-'') (rev l))) = a"
    using assms(1) dw by simp
qed

lemma rootPrefix_spec_prefix:
  assumes "ToLower (TrimSpace e) \<noteq> []"
  shows "prefix (rootPrefix_spec e @ ''-'') (epicRoot e @ ''-'')"
proof (cases "CHR ''-'' \<in> set (ToLower (TrimSpace e))")
  case False
  with assms show ?thesis
    by (simp add: rootPrefix_spec_def epicRoot_def Let_def LastIndex_def)
next
  case True
  then obtain a b where l: "ToLower (TrimSpace e) = a @ CHR ''-'' # b" and nb: "CHR ''-'' \<notin> set b"
    by (auto dest: split_list_last)
  note rs = root_split[OF l nb]
  have sp: "rootPrefix_spec e = a" using True rs(2) by (simp add: rootPrefix_spec_def Let_def)
  show ?thesis
  proof (cases "a = []")
    case True
    with l rs(1) sp show ?thesis by (simp add: epicRoot_def Let_def)
  next
    case False
    with l rs(1) have "epicRoot e = a" by (simp add: epicRoot_def Let_def)
    with sp show ?thesis by simp
  qed
qed

text \<open>
  C10. \<open>detectBeadID\<close> returns the empty string or a lowercase token that begins with
  the epic root prefix (the epic id in lower case without its final \<open>-<slug>\<close>
  segment) followed by \<open>-\<close>; so a bead id that \<open>executeSession\<close> takes from the output
  (no override in the plan) is lowercase.
\<close>

theorem detectBeadID_lowercase_token:
  "(detectBeadID epicID texts = []
    \<or> (prefix (rootPrefix_spec epicID @ ''-'') (detectBeadID epicID texts)
       \<and> prefix (epicRoot epicID @ ''-'') (detectBeadID epicID texts)
       \<and> ToLower (detectBeadID epicID texts) = detectBeadID epicID texts))
   \<and> ToLower (sessionBeadID [] epicID texts) = sessionBeadID [] epicID texts"
proof -
  have main: "detectBeadID epicID texts = []
    \<or> (prefix (rootPrefix_spec epicID @ ''-'') (detectBeadID epicID texts)
       \<and> prefix (epicRoot epicID @ ''-'') (detectBeadID epicID texts)
       \<and> ToLower (detectBeadID epicID texts) = detectBeadID epicID texts)"
  proof (cases "ToLower (TrimSpace epicID) = []")
    case True
    then show ?thesis by (simp add: detectBeadID_def)
  next
    case False
    then have d: "detectBeadID epicID texts = firstMatch (epicRoot epicID @ ''-'') texts"
      by (simp add: detectBeadID_def)
    from firstMatch_shape[of "epicRoot epicID @ ''-''" texts] show ?thesis
    proof
      assume "firstMatch (epicRoot epicID @ ''-'') texts = []"
      with d show ?thesis by simp
    next
      assume "\<exists>r. firstMatch (epicRoot epicID @ ''-'') texts = (epicRoot epicID @ ''-'') @ takeWhile isTokenRest r"
      then obtain r where r: "detectBeadID epicID texts = (epicRoot epicID @ ''-'') @ takeWhile isTokenRest r"
        using d by auto
      have p1: "prefix (epicRoot epicID @ ''-'') (detectBeadID epicID texts)"
        unfolding r by (rule prefixI) simp
      have p2: "prefix (rootPrefix_spec epicID @ ''-'') (detectBeadID epicID texts)"
        using rootPrefix_spec_prefix[OF False] p1 by (rule prefix_order.trans)
      have lc: "ToLower (detectBeadID epicID texts) = detectBeadID epicID texts"
        unfolding r by (simp add: ToLower_append epicRoot_lower ToLower_token ToLower_dash)
      from p1 p2 lc show ?thesis by simp
    qed
  qed
  have "ToLower [] = []" by (simp add: ToLower_def)
  with main show ?thesis by (auto simp: sessionBeadID_def)
qed

theorem detectBeadID_lowercase_token_witness:
  "detectBeadID ''automatic-octo-barnacle-d4c''
       [[], ''Worked on bead AUTOMATIC-OCTO-BARNACLE-KMN.3 for logging.'']
     = ''automatic-octo-barnacle-kmn.3''
   \<and> rootPrefix_spec ''automatic-octo-barnacle-d4c'' = ''automatic-octo-barnacle''
   \<and> prefix (rootPrefix_spec ''automatic-octo-barnacle-d4c'' @ ''-'')
        (detectBeadID ''automatic-octo-barnacle-d4c''
           [[], ''Worked on bead AUTOMATIC-OCTO-BARNACLE-KMN.3 for logging.''])"
proof -
  have v: "detectBeadID ''automatic-octo-barnacle-d4c''
       [[], ''Worked on bead AUTOMATIC-OCTO-BARNACLE-KMN.3 for logging.'']
     = ''automatic-octo-barnacle-kmn.3''"
    by code_simp
  have r: "rootPrefix_spec ''automatic-octo-barnacle-d4c'' = ''automatic-octo-barnacle''"
    by code_simp
  from detectBeadID_lowercase_token[of "''automatic-octo-barnacle-d4c''"
      "[[], ''Worked on bead AUTOMATIC-OCTO-BARNACLE-KMN.3 for logging.'']"] v r
  show ?thesis by auto
qed

section \<open>The event channel of a session\<close>

lemma send_unchanged [simp]:
  "target (send e s) = target s" "tee (send e s) = tee s" "redactor (send e s) = redactor s"
  "builder (send e s) = builder s" "received (send e s) = received s"
  "copyErr (send e s) = copyErr s" "handleOpen (send e s) = handleOpen s"
  "closed (send e s) = closed s" "softStopIssued (send e s) = softStopIssued s"
  "abortDone (send e s) = abortDone s" "ttyInput (send e s) = ttyInput s"
  by (simp_all add: send_def)

lemma send_produced [simp]: "produced (send e s) = produced s @ [e]"
  by (simp add: send_def)

lemma send_observed:
  "observed (send e s) = observed s @ (if length (sink s) < eventBufferSize then [e] else [])"
  by (simp add: send_def observed_def)

lemma send_dropped:
  "dropped (send e s) = dropped s @ (if length (sink s) < eventBufferSize then [] else [e])"
  by (simp add: send_def)

lemma chanInv_send: "chanInv s \<Longrightarrow> chanInv (send e s)"
proof -
  assume a: "chanInv s"
  then have s: "subseq (observed s) (produced s)" by (simp add: chanInv_def)
  have "subseq (observed s @ []) (produced s @ [e])"
    by (rule list_emb_append_mono[OF s]) simp
  moreover have "subseq (observed s @ [e]) (produced s @ [e])"
    by (rule list_emb_append_mono[OF s]) simp
  ultimately show ?thesis using a
    by (auto simp: chanInv_def send_observed send_dropped)
qed

lemma receive_observed [simp]: "observed (receive s) = observed s"
  by (cases "sink s") (simp_all add: receive_def observed_def)

lemma receive_unchanged [simp]:
  "produced (receive s) = produced s" "dropped (receive s) = dropped s"
  "target (receive s) = target s" "tee (receive s) = tee s" "redactor (receive s) = redactor s"
  "builder (receive s) = builder s" "copyErr (receive s) = copyErr s"
  by (cases "sink s"; simp add: receive_def)+

lemma chanInv_cong:
  "observed s' = observed s \<Longrightarrow> produced s' = produced s \<Longrightarrow> dropped s' = dropped s \<Longrightarrow>
   chanInv s \<Longrightarrow> chanInv s'"
  by (simp add: chanInv_def)

lemma runInv_send: "runInv s \<Longrightarrow> \<not> isExit e \<Longrightarrow> runInv (send e s)"
  by (simp add: runInv_def chanInv_send)

lemma runInv_cong:
  "observed s' = observed s \<Longrightarrow> produced s' = produced s \<Longrightarrow> dropped s' = dropped s \<Longrightarrow>
   runInv s \<Longrightarrow> runInv s'"
  by (simp add: runInv_def chanInv_def)

lemma runInv_streamWriter_Write: "runInv s \<Longrightarrow> runInv (snd (streamWriter_Write p s))"
proof -
  assume a: "runInv s"
  have e: "runInv (snd (eventLogWriter_Write p s))"
  proof (cases "p = [] \<or> (target s = FailingWriter)")
    case True
    with a show ?thesis by (auto simp: eventLogWriter_Write_def)
  next
    case False
    have "runInv (emit_log p (s\<lparr>target := t\<rparr>))" for t
      unfolding emit_log_def
      by (rule runInv_send, rule runInv_cong[OF _ _ _ a]) (simp_all add: observed_def isExit_def)
    with False show ?thesis
      by (cases "target s") (auto simp: eventLogWriter_Write_def)
  qed
  obtain err s1 where w: "eventLogWriter_Write p s = (err, s1)" by (cases "eventLogWriter_Write p s")
  with e have s1: "runInv s1" by simp
  have b: "runInv (s1\<lparr>builder := x\<rparr>)" for x
    by (rule runInv_cong[OF _ _ _ s1]) (simp_all add: observed_def)
  have c: "runInv (s1\<lparr>builder := x, tee := t\<rparr>)" for x t
    by (rule runInv_cong[OF _ _ _ s1]) (simp_all add: observed_def)
  show ?thesis using a s1 b c w
    by (auto simp: streamWriter_Write_def Let_def split: option.splits sum.splits)
qed

lemma runInv_step: "runInv s \<Longrightarrow> runInv (runStep sid st s)"
proof (cases st)
  case (PtyChunk p)
  assume a: "runInv s"
  obtain err s' where w: "streamWriter_Write p s = (err, s')" by (cases "streamWriter_Write p s")
  with runInv_streamWriter_Write[OF a, of p] have "runInv s'" by simp
  then have "runInv (s'\<lparr>copyErr := err\<rparr>)"
    by (rule runInv_cong[rotated 3]) (simp_all add: observed_def)
  with a w PtyChunk show ?thesis by simp
next
  case Consume
  assume a: "runInv s"
  have "runInv (receive s)" by (rule runInv_cong[OF _ _ _ a]) simp_all
  with Consume show ?thesis by simp
next
  case (OpSoftStop r)
  assume a: "runInv s"
  have "runInv (emit_state StateStopping (s\<lparr>ttyInput := x, softStopIssued := True\<rparr>))" for x
    unfolding emit_state_def
    by (rule runInv_send, rule runInv_cong[OF _ _ _ a]) (simp_all add: observed_def isExit_def)
  with a OpSoftStop show ?thesis by (simp add: softStop_def)
next
  case (OpAbort ok)
  assume a: "runInv s"
  have 1: "runInv (emit_state StateStopping (s\<lparr>abortDone := True\<rparr>))"
    unfolding emit_state_def
    by (rule runInv_send, rule runInv_cong[OF _ _ _ a]) (simp_all add: observed_def isExit_def)
  have 2: "runInv (s\<lparr>abortDone := True\<rparr>)"
    by (rule runInv_cong[OF _ _ _ a]) (simp_all add: observed_def)
  from a 1 2 OpAbort show ?thesis by (simp add: abort_def)
qed

lemma runSteps_snoc: "runSteps sid (steps @ [st]) s = runStep sid st (runSteps sid steps s)"
  by (simp add: runSteps_def)

lemma runInv_steps: "runInv s \<Longrightarrow> runInv (runSteps sid steps s)"
  by (induction steps rule: rev_induct) (simp_all add: runSteps_snoc runInv_step, simp add: runSteps_def)

lemma runInv_Start:
  "Start binary sid prompt out teeW secrets ok = Inr s0 \<Longrightarrow> runInv s0"
proof -
  assume a: "Start binary sid prompt out teeW secrets ok = Inr s0"
  have n: "runInv (newSession out teeW secrets)"
    by (simp add: runInv_def chanInv_def newSession_def observed_def)
  have 1: "runInv (emit_state StateStarting (newSession out teeW secrets))"
    unfolding emit_state_def by (rule runInv_send[OF n]) (simp add: isExit_def)
  have 2: "runInv ((emit_state StateStarting (newSession out teeW secrets))\<lparr>handleOpen := True\<rparr>)"
    by (rule runInv_cong[OF _ _ _ 1]) (simp_all add: observed_def)
  have "runInv (emit_state StateRunning ((emit_state StateStarting (newSession out teeW secrets))\<lparr>handleOpen := True\<rparr>))"
    using 2 by (simp add: emit_state_def runInv_send isExit_def)
  with a show ?thesis by (auto simp: Start_def Let_def split: if_splits)
qed

lemma finish_props:
  assumes "runInv s"
  shows "let sf = snd (finish res err s) in
     closed sf \<and> chanInv sf
     \<and> (\<exists>pre. produced sf = pre @ [EventExit (ExitCode_r (finishResult res err)) err]
               \<and> filter isExit pre = [])"
proof -
  let ?s1 = "s\<lparr>handleOpen := False\<rparr>"
  have i1: "runInv ?s1" by (rule runInv_cong[OF _ _ _ assms]) (simp_all add: observed_def)
  let ?s2 = "if err = None then emit_state StateExited ?s1
             else emit_state StateExited (emit_state StateStopping ?s1)"
  have i2: "runInv ?s2"
    using i1 by (auto simp: emit_state_def isExit_def intro!: runInv_send)
  let ?s3 = "emit_exit (ExitCode_r (finishResult res err)) err ?s2"
  have c3: "chanInv ?s3" using i2 by (simp add: emit_exit_def runInv_def chanInv_send)
  have p3: "produced ?s3 = produced ?s2 @ [EventExit (ExitCode_r (finishResult res err)) err]"
    by (simp add: emit_exit_def)
  have f: "snd (finish res err s) = ?s3\<lparr>closed := True\<rparr>"
    by (simp add: finish_def Let_def)
  have c4: "chanInv (?s3\<lparr>closed := True\<rparr>)"
    by (rule chanInv_cong[OF _ _ _ c3]) (simp_all add: observed_def)
  from i2 have "filter isExit (produced ?s2) = []" by (simp add: runInv_def)
  with p3 c4 f show ?thesis by (simp add: Let_def)
qed

lemma Start_started:
  "binary \<noteq> [] \<Longrightarrow> TrimSpace sid \<noteq> [] \<Longrightarrow> TrimSpace prompt \<noteq> [] \<Longrightarrow>
   Start binary sid prompt out teeW secrets True = Inr (started out teeW secrets)"
  by (simp add: Start_def started_def Let_def)

lemma demo_Start:
  "Start ''codex'' ''sid'' ''prompt'' out teeW secrets True = Inr (started out teeW secrets)"
  by (rule Start_started) (simp_all add: TrimSpace_def TrimLeftFunc_def TrimRightFunc_def isSpace_def)

text \<open>
  C6 (as amended). The event stream of a session is finite and in source order: what
  the consumer sees is a subsequence of the events the runner produced. The runner
  produces exactly one \<open>Exit\<close> event, as its last event before it closes the channel.
  Every event goes through the same non-blocking send, so an event of any type is
  dropped when the buffer is full; when no event was dropped, the stream is the
  produced sequence and so ends with exactly one \<open>Exit\<close>.
\<close>

theorem event_stream_shape:
  assumes "Start binary sid prompt out teeW secrets True = Inr s0"
  shows "let sf = snd (endRun meta waitErr readErr (runSteps sid steps s0)) in
      closed sf \<and> subseq (observed sf) (produced sf)
      \<and> (\<exists>pre code err. produced sf = pre @ [EventExit code err] \<and> filter isExit pre = [])
      \<and> (dropped sf = [] \<longrightarrow>
           (\<exists>pre code err. observed sf = pre @ [EventExit code err] \<and> filter isExit pre = []))"
proof -
  have i: "runInv (runSteps sid steps s0)"
    by (rule runInv_steps, rule runInv_Start, rule assms)
  have "\<exists>res err. endRun meta waitErr readErr (runSteps sid steps s0)
          = finish res err (runSteps sid steps s0)"
    by (auto simp: endRun_def startWait_def Let_def split: option.splits)
  then obtain res err where e: "endRun meta waitErr readErr (runSteps sid steps s0)
          = finish res err (runSteps sid steps s0)" by blast
  from finish_props[OF i, of res err] show ?thesis
    unfolding e by (auto simp: Let_def chanInv_def)
qed

theorem event_stream_shape_witness:
  "Start ''codex'' ''sid'' ''prompt'' (BufWriter []) (BufWriter []) [''SECRET''] True
     = Inr (started (BufWriter []) (BufWriter []) [''SECRET''])
   \<and> dropped leakRun = []
   \<and> observed leakRun =
       [EventStateChange StateStarting, EventStateChange StateRunning,
        EventLogChunk ''hello SECRET world'', EventStateChange StateExited, EventExit 0 None]
   \<and> closed leakRun \<and> subseq (observed leakRun) (produced leakRun)"
proof -
  have d: "dropped leakRun = []" by code_simp
  have ob: "observed leakRun =
       [EventStateChange StateStarting, EventStateChange StateRunning,
        EventLogChunk ''hello SECRET world'', EventStateChange StateExited, EventExit 0 None]"
    by code_simp
  from event_stream_shape[OF demo_Start[of "BufWriter []" "BufWriter []" "[''SECRET'']"],
      where meta = baseResult and waitErr = None and readErr = None
        and steps = "[PtyChunk ''hello SECRET world'', Consume, Consume, Consume]"]
  have "closed leakRun \<and> subseq (observed leakRun) (produced leakRun)"
    by (simp add: Let_def leakRun_def)
  with d ob demo_Start show ?thesis by simp
qed

text \<open>
  As stated, the claim fails under back-pressure: when 62 chunks arrive while the
  consumer reads nothing, the buffer of 64 is full at the end of the run, and the
  \<open>Exited\<close> state change and the \<open>Exit\<close> event are the events dropped.
\<close>

theorem event_stream_exit_dropped_counterexample:
  "dropped stalledRun = [EventStateChange StateExited, EventExit 0 None]
   \<and> filter isExit (observed stalledRun) = []
   \<and> length (observed stalledRun) = 64
   \<and> closed stalledRun"
  by code_simp

section \<open>Log chunk events and redaction\<close>

lemma logChunks_append: "logChunks (xs @ ys) = logChunks xs @ logChunks ys"
  by (induction xs rule: logChunks.induct) simp_all

lemma logChunks_subseq: "subseq xs ys \<Longrightarrow> subseq (logChunks xs) (logChunks ys)"
proof (induction rule: list_emb.induct)
  case (list_emb_Nil ys)
  then show ?case by simp
next
  case (list_emb_Cons xs ys y)
  then show ?case by (cases y) auto
next
  case (list_emb_Cons2 x y xs ys)
  then show ?case by (cases y) auto
qed

lemma nonEmptyChunks_snoc:
  "nonEmptyChunks (steps @ [st]) =
     nonEmptyChunks steps @ (case st of PtyChunk p \<Rightarrow> (if p = [] then [] else [p]) | _ \<Rightarrow> [])"
  by (induction steps rule: nonEmptyChunks.induct) (auto split: step.splits)

lemma pipeInv_step:
  assumes "pipeInv R chunks s"
  shows "pipeInv R (chunks @ (case st of PtyChunk p \<Rightarrow> (if p = [] then [] else [p]) | _ \<Rightarrow> []))
           (runStep sid st s)"
proof (cases st)
  case (PtyChunk p)
  with assms show ?thesis
    by (simp add: pipeInv_def streamWriter_Write_def eventLogWriter_Write_def emit_log_def
        logChunks_append Let_def)
next
  case Consume
  with assms show ?thesis by (simp add: pipeInv_def)
next
  case (OpSoftStop r)
  with assms show ?thesis
    by (simp add: pipeInv_def softStop_def emit_state_def logChunks_append)
next
  case (OpAbort ok)
  with assms show ?thesis
    by (simp add: pipeInv_def abort_def emit_state_def logChunks_append)
qed

lemma pipeInv_steps:
  "pipeInv R [] s \<Longrightarrow> pipeInv R (nonEmptyChunks steps) (runSteps sid steps s)"
proof (induction steps rule: rev_induct)
  case Nil
  then show ?case by (simp add: runSteps_def)
next
  case (snoc st steps)
  then have "pipeInv R (nonEmptyChunks steps) (runSteps sid steps s)" by simp
  from pipeInv_step[OF this, of st sid] show ?case
    by (simp add: runSteps_snoc nonEmptyChunks_snoc)
qed

lemma pipeInv_started:
  "pipeInv (newSecretRedactor secrets) [] (started (BufWriter []) (BufWriter []) secrets)"
  by (simp add: pipeInv_def started_def emit_state_def newSession_def logChunks_append)

text \<open>
  C5 (as amended). For a session started with a configured secret set, the log chunk
  events carry the PTY output chunks as they are: the same bytes that go to the
  operator's live stream, not redacted. The redacted form of each chunk is what is
  appended to the cumulative buffer and written to the tee. The log chunks the
  consumer sees are a subsequence of the chunks emitted.
\<close>

theorem log_chunks_carry_raw_output:
  assumes "Start binary sid prompt (BufWriter []) (BufWriter []) secrets True = Inr s0"
  shows "let s = runSteps sid steps s0 in
      logChunks (produced s) = nonEmptyChunks steps
    \<and> subseq (logChunks (observed s)) (nonEmptyChunks steps)
    \<and> target s = BufWriter (concat (nonEmptyChunks steps))
    \<and> builder s = concat (map (newSecretRedactor secrets) (nonEmptyChunks steps))
    \<and> tee s = BufWriter (concat (map (newSecretRedactor secrets) (nonEmptyChunks steps)))"
proof -
  from assms have s0: "s0 = started (BufWriter []) (BufWriter []) secrets"
    by (auto simp: Start_def started_def Let_def split: if_splits)
  have p: "pipeInv (newSecretRedactor secrets) (nonEmptyChunks steps) (runSteps sid steps s0)"
    unfolding s0 by (rule pipeInv_steps, rule pipeInv_started)
  have "runInv (runSteps sid steps s0)"
    by (rule runInv_steps, rule runInv_Start, rule assms)
  then have "subseq (logChunks (observed (runSteps sid steps s0)))
                    (logChunks (produced (runSteps sid steps s0)))"
    by (simp add: runInv_def chanInv_def logChunks_subseq)
  with p show ?thesis by (simp add: pipeInv_def Let_def)
qed

theorem log_chunks_carry_raw_output_witness:
  "Start ''codex'' ''sid'' ''prompt'' (BufWriter []) (BufWriter []) [''SECRET''] True
     = Inr (started (BufWriter []) (BufWriter []) [''SECRET''])
   \<and> logChunks (produced (runSteps ''sid'' [PtyChunk ''hello SECRET world'', Consume]
        (started (BufWriter []) (BufWriter []) [''SECRET'']))) = [''hello SECRET world'']
   \<and> builder (runSteps ''sid'' [PtyChunk ''hello SECRET world'', Consume]
        (started (BufWriter []) (BufWriter []) [''SECRET''])) = ''hello [REDACTED] world''
   \<and> target (runSteps ''sid'' [PtyChunk ''hello SECRET world'', Consume]
        (started (BufWriter []) (BufWriter []) [''SECRET''])) = BufWriter ''hello SECRET world''"
proof -
  have r: "newSecretRedactor [''SECRET''] ''hello SECRET world'' = ''hello [REDACTED] world''"
    by code_simp
  from log_chunks_carry_raw_output[OF demo_Start[of "BufWriter []" "BufWriter []" "[''SECRET'']"],
      where steps = "[PtyChunk ''hello SECRET world'', Consume]"] r demo_Start
  show ?thesis by (simp add: Let_def)
qed

text \<open>
  As stated, the claim fails: with the secret \<open>SECRET\<close> configured, the log chunk event
  of the chunk \<open>hello SECRET world\<close> contains the secret, while the cumulative buffer
  and the tee hold \<open>hello [REDACTED] world\<close>.
\<close>

theorem log_chunk_event_leaks_secret_counterexample:
  "logChunks (observed leakRun) = [''hello SECRET world'']
   \<and> Contains ''hello SECRET world'' ''SECRET''
   \<and> builder leakRun = ''hello [REDACTED] world''
   \<and> tee leakRun = BufWriter ''hello [REDACTED] world''
   \<and> target leakRun = BufWriter ''hello SECRET world''"
  by code_simp

section \<open>Exit semantics\<close>

lemma Wait_finish: "Wait (finish res err s) = (finishResult res err, err)"
  by (simp add: Wait_def finish_def Let_def)

text \<open>
  C7 (as amended). When the stream copy ended without error (or with \<open>EOF\<close> or
  \<open>closed\<close>) and the wait fails with an exit-code-bearing error, the runner records that
  code and \<open>Wait\<close> returns success. Any other wait error, or a stream-copy error other
  than \<open>EOF\<close>/\<open>closed\<close> whatever the wait returned, makes \<open>Wait\<close> return a run failure whose
  result carries the exit code 1; \<open>finish\<close> puts the 1 in place of an exit code 0.
\<close>

theorem Wait_exit_semantics:
  "(\<not> copyFailed streamErr \<longrightarrow>
      Wait (startWait meta (Some (ExitCodeError code)) streamErr s)
        = (meta\<lparr>Output_r := builder s, ExitCode_r := code\<rparr>, None))
   \<and> (\<not> copyFailed streamErr \<longrightarrow>
      Wait (startWait meta None streamErr s)
        = (meta\<lparr>Output_r := builder s, ExitCode_r := 0\<rparr>, None))
   \<and> (\<not> copyFailed streamErr \<longrightarrow>
      Wait (startWait meta (Some (OtherWaitError m)) streamErr s)
        = (meta\<lparr>Output_r := builder s, ExitCode_r := 1\<rparr>, Some (RunFailed (OtherWaitError m))))
   \<and> (copyFailed (Some cerr) \<longrightarrow>
      Wait (startWait meta waitErr (Some cerr) s)
        = (meta\<lparr>Output_r := builder s, ExitCode_r := 1\<rparr>, Some (StreamFailed cerr)))
   \<and> ExitCode_r (finishResult res (Some rerr)) = (if ExitCode_r res = 0 then 1 else ExitCode_r res)
   \<and> finishResult res None = res"
  by (simp add: startWait_def Wait_finish finishResult_def exitCodeFrom_def Let_def)

theorem Wait_exit_semantics_witness:
  "\<not> copyFailed (Some ErrEOF) \<and> copyFailed (Some (OtherCopyError ''input/output error''))
   \<and> Wait (startWait baseResult (Some (ExitCodeError 3)) (Some ErrEOF) leakRun)
        = (baseResult\<lparr>Output_r := ''hello [REDACTED] world'', ExitCode_r := 3\<rparr>, None)
   \<and> Wait (startWait baseResult (Some (OtherWaitError ''signal: killed'')) None leakRun)
        = (baseResult\<lparr>Output_r := ''hello [REDACTED] world'', ExitCode_r := 1\<rparr>,
           Some (RunFailed (OtherWaitError ''signal: killed'')))"
proof -
  have c: "\<not> copyFailed (Some ErrEOF)" "\<not> copyFailed None"
    "copyFailed (Some (OtherCopyError ''input/output error''))"
    by (simp_all add: copyFailed_def)
  have b: "builder leakRun = ''hello [REDACTED] world''" by code_simp
  from Wait_exit_semantics[of "Some ErrEOF" baseResult 3 leakRun]
       Wait_exit_semantics[of None baseResult 3 leakRun "''signal: killed''"] c b
  show ?thesis by simp
qed

text \<open>
  As stated, the first sentence of the claim fails when the stream copy failed too:
  the wait error carries the exit code 3, yet \<open>Wait\<close> returns a failure and the result
  carries the exit code 1.
\<close>

theorem Wait_exit_code_counterexample:
  "Wait (startWait baseResult (Some (ExitCodeError 3))
           (Some (OtherCopyError ''input/output error'')) leakRun)
     = (baseResult\<lparr>Output_r := ''hello [REDACTED] world'', ExitCode_r := 1\<rparr>,
        Some (StreamFailed (OtherCopyError ''input/output error'')))"
  by code_simp

section \<open>The fenced-report parser\<close>

subsection \<open>The parser methods do not look at \<open>hold\<close>\<close>

lemma finishDetails_hold:
  "finishDetails (p\<lparr>hold_p := h\<rparr>) = (fst (finishDetails p), (snd (finishDetails p))\<lparr>hold_p := h\<rparr>)"
  by (simp add: finishDetails_def Let_def)

lemma processField_hold:
  "processField l (p\<lparr>hold_p := h\<rparr>) = (fst (processField l p), (snd (processField l p))\<lparr>hold_p := h\<rparr>)"
  by (simp add: processField_def Let_def)

lemma closeReport_hold:
  "closeReport (p\<lparr>hold_p := h\<rparr>) = (fst (closeReport p), (snd (closeReport p))\<lparr>hold_p := h\<rparr>)"
  by (simp add: closeReport_def split: option.splits)

lemma consumeDetailLine_hold:
  "consumeDetailLine l (p\<lparr>hold_p := h\<rparr>)
     = (fst (consumeDetailLine l p), (snd (consumeDetailLine l p))\<lparr>hold_p := h\<rparr>)"
proof -
  obtain e1 p1 where f: "finishDetails p = (e1, p1)" by (cases "finishDetails p")
  then have fh: "finishDetails (p\<lparr>hold_p := h\<rparr>) = (e1, p1\<lparr>hold_p := h\<rparr>)"
    by (simp add: finishDetails_hold)
  obtain e2 p2 where c: "closeReport (p1\<lparr>collectingDetails_p := False\<rparr>) = (e2, p2)"
    by (cases "closeReport (p1\<lparr>collectingDetails_p := False\<rparr>)")
  have ch: "closeReport (p1\<lparr>hold_p := h, collectingDetails_p := False\<rparr>) = (e2, p2\<lparr>hold_p := h\<rparr>)"
  proof -
    have "p1\<lparr>hold_p := h, collectingDetails_p := False\<rparr>
            = (p1\<lparr>collectingDetails_p := False\<rparr>)\<lparr>hold_p := h\<rparr>" by simp
    then show ?thesis using c by (simp only: closeReport_hold fst_conv snd_conv)
  qed
  show ?thesis
    by (simp add: consumeDetailLine_def Let_def f fh c ch split: option.splits)
qed

lemma handleLine_hold:
  "handleLine l (p\<lparr>hold_p := h\<rparr>) = (fst (handleLine l p), (snd (handleLine l p))\<lparr>hold_p := h\<rparr>)"
proof -
  obtain e1 p1 where f: "finishDetails p = (e1, p1)" by (cases "finishDetails p")
  then have fh: "finishDetails (p\<lparr>hold_p := h\<rparr>) = (e1, p1\<lparr>hold_p := h\<rparr>)"
    by (simp add: finishDetails_hold)
  obtain e2 p2 where c: "closeReport (p1\<lparr>collectingDetails_p := False\<rparr>) = (e2, p2)"
    by (cases "closeReport (p1\<lparr>collectingDetails_p := False\<rparr>)")
  have ch: "closeReport (p1\<lparr>hold_p := h, collectingDetails_p := False\<rparr>) = (e2, p2\<lparr>hold_p := h\<rparr>)"
  proof -
    have "p1\<lparr>hold_p := h, collectingDetails_p := False\<rparr>
            = (p1\<lparr>collectingDetails_p := False\<rparr>)\<lparr>hold_p := h\<rparr>" by simp
    then show ?thesis using c by (simp only: closeReport_hold fst_conv snd_conv)
  qed
  obtain cons e3 p3 where d: "consumeDetailLine l p = ((cons, e3), p3)"
    by (cases "consumeDetailLine l p") auto
  then have dh: "consumeDetailLine l (p\<lparr>hold_p := h\<rparr>) = ((cons, e3), p3\<lparr>hold_p := h\<rparr>)"
    by (simp add: consumeDetailLine_hold)
  show ?thesis
    by (cases "state_p p")
       (simp_all add: handleLine_def Let_def f fh c ch d dh closeReport_hold processField_hold
          split: option.splits)
qed

subsection \<open>Feeding text in pieces\<close>

lemma feedLines_hold:
  "feedLines line t (p\<lparr>hold_p := h\<rparr>) = feedLines line t p"
proof (induction t arbitrary: line p)
  case Nil
  then show ?case by simp
next
  case (Cons c cs)
  then show ?case by simp
qed

lemma feedLines_append:
  "feedLines line (t1 @ t2) p =
     (case feedLines line t1 p of
        (out, p1) \<Rightarrow>
          if stopped out then (out, p1\<lparr>hold_p := hold_p p1 @ t2\<rparr>)
          else feedLines (hold_p p1) t2 p1)"
proof (induction t1 arbitrary: line p)
  case Nil
  then show ?case by (simp add: stopped_def feedLines_hold)
next
  case (Cons c cs)
  show ?case
  proof (cases "c = CHR 0x0A")
    case False
    with Cons show ?thesis by simp
  next
    case True
    obtain e p1 where h: "handleLine line p = (e, p1)" by (cases "handleLine line p")
    then have h1: "handleLine line (p\<lparr>hold_p := cs\<rparr>) = (e, p1\<lparr>hold_p := cs\<rparr>)"
      and h2: "handleLine line (p\<lparr>hold_p := cs @ t2\<rparr>) = (e, p1\<lparr>hold_p := cs @ t2\<rparr>)"
      by (simp_all add: handleLine_hold)
    show ?thesis
    proof (cases e)
      case (Some err)
      with True h1 h2 show ?thesis by (simp add: stopped_def)
    next
      case None
      show ?thesis
      proof (cases "done_p p1")
        case dn: True
        with None True h1 h2 show ?thesis by (simp add: stopped_def)
      next
        case nd: False
        with None True h1 h2 Cons.IH[of "[]" p1] show ?thesis
          by (simp add: feedLines_hold)
      qed
    qed
  qed
qed

lemma feedLines_no_newline:
  "CHR 0x0A \<notin> set h \<Longrightarrow> feedLines line (h @ t) p = feedLines (line @ h) t p"
  by (induction h arbitrary: line) auto

lemma feedLines_result:
  "feedLines line t p = (out, p1) \<Longrightarrow> \<not> done_p p \<Longrightarrow> CHR 0x0A \<notin> set line \<Longrightarrow>
     (if stopped out then (snd (snd out) = None \<longrightarrow> done_p p1 \<and> fst out = result_p p1)
      else \<not> done_p p1 \<and> CHR 0x0A \<notin> set (hold_p p1) \<and> out = (emptyResult, False, None))"
proof (induction t arbitrary: line p)
  case Nil
  then show ?case by (auto simp: stopped_def)
next
  case (Cons c cs)
  show ?case
  proof (cases "c = CHR 0x0A")
    case False
    with Cons show ?thesis by simp
  next
    case True
    obtain e p2 where h: "handleLine line (p\<lparr>hold_p := cs\<rparr>) = (e, p2)"
      by (cases "handleLine line (p\<lparr>hold_p := cs\<rparr>)")
    show ?thesis
    proof (cases e)
      case (Some err)
      with True h Cons.prems show ?thesis by (auto simp: stopped_def)
    next
      case None
      show ?thesis
      proof (cases "done_p p2")
        case dn: True
        with None True h Cons.prems show ?thesis by (auto simp: stopped_def)
      next
        case nd: False
        with None True h Cons.prems have "feedLines [] cs p2 = (out, p1)" by simp
        from Cons.IH[OF this nd] show ?thesis by simp
      qed
    qed
  qed
qed

lemma normalizeNewlines_Nil: "normalizeNewlines [] = []"
  by (simp add: normalizeNewlines_def ReplaceAll_Nil)

lemma parseText_Nil:
  "CHR 0x0A \<notin> set (hold_p p) \<Longrightarrow> parseText p [] = feedAll p []"
proof -
  assume a: "CHR 0x0A \<notin> set (hold_p p)"
  have "feedLines [] (hold_p p @ []) p = feedLines ([] @ hold_p p) [] p"
    using a by (rule feedLines_no_newline)
  then have "feedLines [] (hold_p p) p = ((emptyResult, False, None), p)" by simp
  then show ?thesis by (simp add: parseText_def)
qed

lemma feedAll_parseText:
  "\<not> done_p p \<Longrightarrow> CHR 0x0A \<notin> set (hold_p p) \<Longrightarrow>
   feedAll p chunks = parseText p (concat (map normalizeNewlines chunks))"
proof (induction chunks arbitrary: p)
  case Nil
  then show ?case by (simp add: parseText_Nil)
next
  case (Cons c cs)
  let ?rest = "concat (map normalizeNewlines cs)"
  show ?case
  proof (cases "c = []")
    case True
    with Cons show ?thesis by (simp add: Feed_def normalizeNewlines_Nil)
  next
    case False
    obtain out p1 where f: "feedLines [] (hold_p p @ normalizeNewlines c) p = (out, p1)"
      by (cases "feedLines [] (hold_p p @ normalizeNewlines c) p")
    with False Cons.prems have fd: "Feed c p = (out, p1)" by (simp add: Feed_def)
    have r: "if stopped out then (snd (snd out) = None \<longrightarrow> done_p p1 \<and> fst out = result_p p1)
      else \<not> done_p p1 \<and> CHR 0x0A \<notin> set (hold_p p1) \<and> out = (emptyResult, False, None)"
      by (rule feedLines_result[OF f Cons.prems(1)]) simp
    have ap: "feedLines [] (hold_p p @ normalizeNewlines c @ ?rest) p =
        (if stopped out then (out, p1\<lparr>hold_p := hold_p p1 @ ?rest\<rparr>)
         else feedLines (hold_p p1) ?rest p1)"
      using feedLines_append[of "[]" "hold_p p @ normalizeNewlines c" ?rest p] f by simp
    show ?thesis
    proof (cases "stopped out")
      case True
      obtain res dn e where o: "out = (res, dn, e)" by (cases out)
      with True r ap fd show ?thesis
        by (cases e) (auto simp: parseText_def stopped_def)
    next
      case ns: False
      with r have nd: "\<not> done_p p1" and nn: "CHR 0x0A \<notin> set (hold_p p1)"
        and o: "out = (emptyResult, False, None)" by auto
      have "feedLines (hold_p p1) ?rest p1 = feedLines [] (hold_p p1 @ ?rest) p1"
        using feedLines_no_newline[OF nn, of "[]" ?rest p1] by simp
      with ns ap have "parseText p (normalizeNewlines c @ ?rest) = parseText p1 ?rest"
        by (simp add: parseText_def)
      with Cons.IH[OF nd nn] fd o show ?thesis by simp
    qed
  qed
qed

lemma NewParser_fresh: "\<not> done_p (NewParser sid)" "CHR 0x0A \<notin> set (hold_p (NewParser sid))"
  by (simp_all add: NewParser_def)

lemma crlf_step:
  "ReplaceAll (CHR 0x0D # CHR 0x0A # cs) [CHR 0x0D, CHR 0x0A] [CHR 0x0A]
     = CHR 0x0A # ReplaceAll cs [CHR 0x0D, CHR 0x0A] [CHR 0x0A]"
  by (subst ReplaceAll.simps) simp

lemma crlf_skip:
  "\<not> prefix [CHR 0x0D, CHR 0x0A] (c # cs) \<Longrightarrow>
   ReplaceAll (c # cs) [CHR 0x0D, CHR 0x0A] [CHR 0x0A]
     = c # ReplaceAll cs [CHR 0x0D, CHR 0x0A] [CHR 0x0A]"
  by (rule ReplaceAll_skip) simp

lemma cr_step:
  "ReplaceAll (c # cs) [CHR 0x0D] [CHR 0x0A]
     = (if c = CHR 0x0D then CHR 0x0A else c) # ReplaceAll cs [CHR 0x0D] [CHR 0x0A]"
  by (subst ReplaceAll.simps) simp

lemma normalizeNewlines_fold: "normalizeNewlines s = foldNewlines s"
proof (induction s rule: foldNewlines.induct)
  case 1
  then show ?case by (simp add: normalizeNewlines_def ReplaceAll_Nil)
next
  case (2 c)
  have "ReplaceAll [c] [CHR 0x0D, CHR 0x0A] [CHR 0x0A] = [c]"
    by (simp add: crlf_skip ReplaceAll_Nil)
  then show ?case by (simp add: normalizeNewlines_def cr_step ReplaceAll_Nil)
next
  case (3 c d cs)
  show ?case
  proof (cases "c = CHR 0x0D \<and> d = CHR 0x0A")
    case True
    with 3 show ?thesis by (simp add: normalizeNewlines_def crlf_step cr_step)
  next
    case False
    then have "\<not> prefix [CHR 0x0D, CHR 0x0A] (c # d # cs)" by auto
    then have "ReplaceAll (c # d # cs) [CHR 0x0D, CHR 0x0A] [CHR 0x0A]
        = c # ReplaceAll (d # cs) [CHR 0x0D, CHR 0x0A] [CHR 0x0A]"
      by (rule crlf_skip)
    with False 3 show ?thesis by (auto simp: normalizeNewlines_def cr_step)
  qed
qed

lemma foldNewlines_append:
  "a = [] \<or> last a \<noteq> CHR 0x0D \<or> b = [] \<or> hd b \<noteq> CHR 0x0A \<Longrightarrow>
   foldNewlines (a @ b) = foldNewlines a @ foldNewlines b"
proof (induction a rule: foldNewlines.induct)
  case 1
  then show ?case by simp
next
  case (2 c)
  then show ?case by (cases b) auto
next
  case (3 c d cs)
  then show ?case by (auto split: if_splits)
qed

lemma splitsNoCRLF_concat:
  "splitsNoCRLF chunks \<Longrightarrow>
   concat (map normalizeNewlines chunks) = normalizeNewlines (concat chunks)"
  by (induction chunks) (simp_all add: normalizeNewlines_fold foldNewlines_append)

text \<open>
  When no chunk boundary falls between the \<open>\r\<close> and the \<open>\n\<close> of a CRLF pair, the
  result of feeding the chunks one at a time is the result of feeding their
  concatenation as a single chunk.
\<close>

theorem chunk_split_independent:
  assumes "splitsNoCRLF chunks"
  shows "feedAll (NewParser sid) chunks = feedAll (NewParser sid) [concat chunks]"
proof -
  have a: "feedAll (NewParser sid) chunks
      = parseText (NewParser sid) (normalizeNewlines (concat chunks))"
    using feedAll_parseText[OF NewParser_fresh, where chunks = chunks]
      splitsNoCRLF_concat[OF assms] by simp
  have b: "feedAll (NewParser sid) [concat chunks]
      = parseText (NewParser sid) (normalizeNewlines (concat chunks))"
    using feedAll_parseText[OF NewParser_fresh, where chunks = "[concat chunks]"]
    by (simp del: feedAll.simps)
  from a b show ?thesis by simp
qed

text \<open>
  C3. Chunk-split independence fails for a split between the \<open>\r\<close> and the \<open>\n\<close> of a
  CRLF pair: \<open>Feed\<close> normalizes each chunk by itself, so the \<open>\r\<close> that ends one chunk and
  the \<open>\n\<close> that starts the next become two line feeds. Inside a details block the
  extra empty line becomes part of the details: fed in two chunks the report below has
  the details \<open>a\<close>, empty line, \<open>b\<close>; fed as one chunk it has the details \<open>a\<close>, \<open>b\<close>.
\<close>

theorem crlf_split_changes_details:
  "feedAll (NewParser ''s'') crlfChunksA
     = Inr \<lparr>SessionID_f = ''s'', Status_f = ''success'', CommitMsg_f = ''m'',
            Details_f = ''a'' @ [CHR 0x0A, CHR 0x0A] @ ''b'', Escalation_f = []\<rparr>
   \<and> feedAll (NewParser ''s'') [concat crlfChunksA]
     = Inr \<lparr>SessionID_f = ''s'', Status_f = ''success'', CommitMsg_f = ''m'',
            Details_f = ''a'' @ [CHR 0x0A] @ ''b'', Escalation_f = []\<rparr>"
  by code_simp

subsection \<open>Validation on close\<close>

lemma processField_flags:
  "done_p (snd (processField l p)) = done_p p" "state_p (snd (processField l p)) = state_p p"
  by (simp_all add: processField_def Let_def)

lemma finishDetails_flags:
  "done_p (snd (finishDetails p)) = done_p p" "state_p (snd (finishDetails p)) = state_p p"
  by (simp_all add: finishDetails_def Let_def)

lemma closeReport_valid:
  "\<not> done_p p \<Longrightarrow> validParser (snd (closeReport p))"
  by (simp add: closeReport_def validParser_def split: option.splits)

lemma closeReport_ok:
  "closeReport p = (None, p1) \<Longrightarrow> done_p p1 \<and> validateResult (result_p p1) = None"
  by (auto simp: closeReport_def split: option.splits)

lemma closeReport_err:
  "closeReport p = (Some e, p1) \<Longrightarrow> p1 = p \<and> validateResult (result_p p) = Some e"
  by (auto simp: closeReport_def split: option.splits)

lemma validParser_not_done: "\<not> done_p p \<Longrightarrow> validParser p"
  by (simp add: validParser_def)

lemma consumeDetailLine_valid:
  assumes "\<not> done_p p"
  shows "validParser (snd (consumeDetailLine l p))"
proof -
  obtain e1 p1 where f: "finishDetails p = (e1, p1)" by (cases "finishDetails p")
  with finishDetails_flags(1)[of p] assms have nd: "\<not> done_p p1" by simp
  then have c: "validParser (snd (closeReport (p1\<lparr>collectingDetails_p := False\<rparr>)))"
    by (intro closeReport_valid) simp
  obtain e2 p2 where cr: "closeReport (p1\<lparr>collectingDetails_p := False\<rparr>) = (e2, p2)"
    by (cases "closeReport (p1\<lparr>collectingDetails_p := False\<rparr>)")
  with c have v2: "validParser p2" by simp
  show ?thesis using assms nd v2
    by (auto simp: consumeDetailLine_def Let_def f cr validParser_def split: option.splits)
qed

lemma consumeDetailLine_not_consumed:
  assumes "\<not> done_p p" "consumeDetailLine l p = ((False, e), p3)"
  shows "\<not> done_p p3"
proof -
  obtain e1 p1 where f: "finishDetails p = (e1, p1)" by (cases "finishDetails p")
  with finishDetails_flags(1)[of p] assms have nd: "\<not> done_p p1" by simp
  obtain e2 p2 where cr: "closeReport (p1\<lparr>collectingDetails_p := False\<rparr>) = (e2, p2)"
    by (cases "closeReport (p1\<lparr>collectingDetails_p := False\<rparr>)")
  have "e2 \<noteq> None \<Longrightarrow> \<not> done_p p2"
    using cr nd by (auto dest: closeReport_err)
  with assms nd show ?thesis
    by (auto simp: consumeDetailLine_def Let_def f cr split: option.splits if_splits)
qed

lemma processField_valid: "\<not> done_p q \<Longrightarrow> validParser (snd (processField x q))"
  by (simp add: validParser_def processField_flags)

lemma handleLine_valid:
  assumes "validParser p"
  shows "validParser (snd (handleLine l p))"
proof (cases "state_p p")
  case stateFinished
  with assms show ?thesis by (simp add: handleLine_def Let_def)
next
  case stateSeeking
  with assms have nd: "\<not> done_p p" by (auto simp: validParser_def)
  with stateSeeking show ?thesis
    by (auto simp: handleLine_def Let_def validParser_def)
next
  case stateInBody
  with assms have nd: "\<not> done_p p" by (auto simp: validParser_def)
  obtain e1 p1 where f: "finishDetails p = (e1, p1)" by (cases "finishDetails p")
  with finishDetails_flags(1)[of p] nd have nd1: "\<not> done_p p1" by simp
  have c1: "validParser (snd (closeReport (p1\<lparr>collectingDetails_p := False\<rparr>)))"
    using nd1 by (intro closeReport_valid) simp
  have c0: "validParser (snd (closeReport p))" using nd by (rule closeReport_valid)
  obtain cons e3 p3 where d: "consumeDetailLine l p = ((cons, e3), p3)"
    by (cases "consumeDetailLine l p") auto
  with consumeDetailLine_valid[OF nd, of l] have v3: "validParser p3" by simp
  have nc: "\<not> cons \<Longrightarrow> \<not> done_p p3"
    using consumeDetailLine_not_consumed[OF nd, of l e3 p3] d by simp
  show ?thesis
    using stateInBody nd nd1 c1 c0 v3 nc
    by (auto simp: handleLine_def Let_def f d validParser_not_done processField_valid
          split: option.splits)
qed


lemma feedLines_valid:
  "validParser p \<Longrightarrow> feedLines line t p = (out, p1) \<Longrightarrow>
     validParser p1 \<and> (fst (snd out) \<longrightarrow> done_p p1 \<and> fst out = result_p p1)"
proof (induction t arbitrary: line p)
  case Nil
  then show ?case by (auto simp: validParser_def)
next
  case (Cons c cs)
  show ?case
  proof (cases "c = CHR 0x0A")
    case False
    with Cons show ?thesis by simp
  next
    case True
    obtain e p2 where h: "handleLine line (p\<lparr>hold_p := cs\<rparr>) = (e, p2)"
      by (cases "handleLine line (p\<lparr>hold_p := cs\<rparr>)")
    have "validParser (p\<lparr>hold_p := cs\<rparr>)" using Cons.prems(1) by (simp add: validParser_def)
    from handleLine_valid[OF this, of line] h have v2: "validParser p2" by simp
    show ?thesis
    proof (cases e)
      case (Some err)
      with True h Cons.prems v2 show ?thesis by auto
    next
      case None
      show ?thesis
      proof (cases "done_p p2")
        case dn: True
        with None True h Cons.prems v2 show ?thesis by auto
      next
        case nd: False
        with None True h Cons.prems have "feedLines [] cs p2 = (out, p1)" by simp
        from Cons.IH[OF v2 this] show ?thesis .
      qed
    qed
  qed
qed

lemma Feed_valid:
  "validParser p \<Longrightarrow> Feed c p = (out, p1) \<Longrightarrow>
     validParser p1 \<and> (fst (snd out) \<longrightarrow> done_p p1 \<and> fst out = result_p p1)"
  by (auto simp: Feed_def dest: feedLines_valid split: if_splits)

lemma Finalize_valid:
  assumes "validParser p" "Finalize p = ((res, True, None), p1)"
  shows "validateResult res = None"
proof (cases "done_p p")
  case True
  with assms show ?thesis by (auto simp: Finalize_def validParser_def)
next
  case False
  obtain e p2 where h: "handleLine (hold_p p) p = (e, p2)" by (cases "handleLine (hold_p p) p")
  with handleLine_valid[OF assms(1), of "hold_p p"] have v2: "validParser p2" by simp
  then have v3: "validParser (p2\<lparr>hold_p := []\<rparr>)" by (simp add: validParser_def)
  show ?thesis
    using assms(2) False v2 v3 assms(1) h
    by (auto simp: Finalize_def validParser_def split: if_splits option.splits parserState.splits)
qed

lemma feedAll_valid:
  "validParser p \<Longrightarrow> feedAll p chunks = Inr r \<Longrightarrow> validateResult r = None"
proof (induction chunks arbitrary: p)
  case Nil
  obtain res dn e p1 where f: "Finalize p = ((res, dn, e), p1)" by (cases "Finalize p") auto
  with Nil show ?case
    by (cases e; cases dn) (auto dest: Finalize_valid)
next
  case (Cons c cs)
  obtain res dn e p1 where f: "Feed c p = ((res, dn, e), p1)" by (cases "Feed c p") auto
  from Feed_valid[OF Cons.prems(1) f] have v: "validParser p1"
    and d: "dn \<longrightarrow> done_p p1 \<and> res = result_p p1" by auto
  show ?case
  proof (cases e)
    case (Some err)
    with f Cons.prems show ?thesis by simp
  next
    case None
    show ?thesis
    proof (cases dn)
      case True
      with None f Cons.prems d v show ?thesis by (auto simp: validParser_def)
    next
      case False
      with None f Cons.prems have "feedAll p1 cs = Inr r" by simp
      from Cons.IH[OF v this] show ?thesis .
    qed
  qed
qed

lemma NewParser_valid: "validParser (NewParser sid)"
  by (simp add: NewParser_def validParser_def)

lemma validateResult_iff:
  "validateResult r = None \<longleftrightarrow>
     SessionID_f r \<noteq> [] \<and> Status_f r \<noteq> [] \<and> CommitMsg_f r \<noteq> [] \<and> Details_f r \<noteq> []
     \<and> (Status_f r = ''needs_help'' \<longrightarrow> TrimSpace (Escalation_f r) \<noteq> [])"
  by (simp add: validateResult_def StatusFailure_def)

lemma handleLine_closing:
  assumes "state_p p = stateInBody" "TrimSpace line = fence"
  shows "(fst (handleLine line p) = None \<longrightarrow>
            done_p (snd (handleLine line p))
            \<and> validateResult (result_p (snd (handleLine line p))) = None)
       \<and> (\<not> collectingDetails_p p \<longrightarrow> fst (handleLine line p) = validateResult (result_p p))"
proof -
  obtain e1 p1 where f: "finishDetails p = (e1, p1)" by (cases "finishDetails p")
  obtain e2 p2 where cr: "closeReport (p1\<lparr>collectingDetails_p := False\<rparr>) = (e2, p2)"
    by (cases "closeReport (p1\<lparr>collectingDetails_p := False\<rparr>)")
  obtain e0 p0 where c0: "closeReport p = (e0, p0)" by (cases "closeReport p")
  have a: "e2 = None \<Longrightarrow> done_p p2 \<and> validateResult (result_p p2) = None"
    using cr by (auto dest: closeReport_ok)
  have b: "e0 = None \<Longrightarrow> done_p p0 \<and> validateResult (result_p p0) = None"
    using c0 by (auto dest: closeReport_ok)
  have c: "e0 = validateResult (result_p p)"
    using c0 by (auto simp: closeReport_def split: option.splits)
  show ?thesis using assms a b c
    by (auto simp: handleLine_def Let_def f cr c0 split: option.splits)
qed

lemma Finalize_end_of_stream:
  assumes "\<not> done_p p" "hold_p p = []"
  shows "fst (Finalize p) =
     (emptyResult, False,
      Some (case state_p p of stateSeeking \<Rightarrow> ReportNotFound
            | stateInBody \<Rightarrow> ReportIncomplete
            | stateFinished \<Rightarrow> UnexpectedParserState))"
  using assms by (simp add: Finalize_def split: parserState.splits)

lemma Finalize_flush:
  assumes "\<not> done_p p" "hold_p p \<noteq> []" "handleLine (hold_p p) p = (None, p1)" "\<not> done_p p1"
  shows "fst (Finalize p) =
     (emptyResult, False,
      Some (case state_p p1 of stateSeeking \<Rightarrow> ReportNotFound
            | stateInBody \<Rightarrow> ReportIncomplete
            | stateFinished \<Rightarrow> UnexpectedParserState))"
  using assms by (simp add: Finalize_def split: parserState.splits)

text \<open>
  C2 (as amended). A report that the parser returns, whether the closing fence or
  \<open>Finalize\<close> closed it, has its session id, status, commit message and details, and a
  non-blank escalation when the status is \<open>needs_help\<close>; on the closing fence
  \<open>validateResult\<close> decides, and its error is the parser's error. At the end of the
  stream \<open>Finalize\<close> first handles the buffered, unterminated last line, if there is
  one, and returns the error of that line when it has one. When no line is buffered, or
  the buffered line is handled without error and does not close the report, a parser
  that is inside the body reports an incomplete report, and one that is seeking the
  opening fence reports that no report was found.
\<close>

theorem fenced_report_validation:
  "(feedAll (NewParser sid) chunks = Inr r \<longrightarrow>
      SessionID_f r \<noteq> [] \<and> Status_f r \<noteq> [] \<and> CommitMsg_f r \<noteq> [] \<and> Details_f r \<noteq> []
      \<and> (Status_f r = ''needs_help'' \<longrightarrow> TrimSpace (Escalation_f r) \<noteq> []))
   \<and> (validateResult r' = None \<longleftrightarrow>
      SessionID_f r' \<noteq> [] \<and> Status_f r' \<noteq> [] \<and> CommitMsg_f r' \<noteq> [] \<and> Details_f r' \<noteq> []
      \<and> (Status_f r' = ''needs_help'' \<longrightarrow> TrimSpace (Escalation_f r') \<noteq> []))
   \<and> (state_p p = stateInBody \<and> TrimSpace line = fence \<longrightarrow>
        (fst (handleLine line p) = None \<longrightarrow>
           done_p (snd (handleLine line p))
           \<and> validateResult (result_p (snd (handleLine line p))) = None)
        \<and> (\<not> collectingDetails_p p \<longrightarrow> fst (handleLine line p) = validateResult (result_p p)))
   \<and> (\<not> done_p q \<and> hold_p q = [] \<and> state_p q = stateInBody \<longrightarrow>
        fst (Finalize q) = (emptyResult, False, Some ReportIncomplete))
   \<and> (\<not> done_p q \<and> hold_p q = [] \<and> state_p q = stateSeeking \<longrightarrow>
        fst (Finalize q) = (emptyResult, False, Some ReportNotFound))
   \<and> (\<not> done_p q \<and> hold_p q \<noteq> [] \<and> handleLine (hold_p q) q = (None, q1) \<and> \<not> done_p q1 \<longrightarrow>
        (state_p q1 = stateInBody \<longrightarrow>
           fst (Finalize q) = (emptyResult, False, Some ReportIncomplete))
        \<and> (state_p q1 = stateSeeking \<longrightarrow>
           fst (Finalize q) = (emptyResult, False, Some ReportNotFound)))
   \<and> (\<not> done_p q \<and> hold_p q \<noteq> [] \<and> handleLine (hold_p q) q = (Some err, q2) \<longrightarrow>
        Finalize q = ((emptyResult, False, Some err), q2))"
proof -
  have 1: "feedAll (NewParser sid) chunks = Inr r \<longrightarrow>
      SessionID_f r \<noteq> [] \<and> Status_f r \<noteq> [] \<and> CommitMsg_f r \<noteq> [] \<and> Details_f r \<noteq> []
      \<and> (Status_f r = ''needs_help'' \<longrightarrow> TrimSpace (Escalation_f r) \<noteq> [])"
    using feedAll_valid[OF NewParser_valid, of sid chunks r] by (simp add: validateResult_iff)
  have 3: "state_p p = stateInBody \<and> TrimSpace line = fence \<longrightarrow>
        (fst (handleLine line p) = None \<longrightarrow>
           done_p (snd (handleLine line p))
           \<and> validateResult (result_p (snd (handleLine line p))) = None)
        \<and> (\<not> collectingDetails_p p \<longrightarrow> fst (handleLine line p) = validateResult (result_p p))"
    using handleLine_closing[of p line] by blast
  have 4: "\<not> done_p q \<and> hold_p q = [] \<and> state_p q = stateInBody \<longrightarrow>
        fst (Finalize q) = (emptyResult, False, Some ReportIncomplete)"
    "\<not> done_p q \<and> hold_p q = [] \<and> state_p q = stateSeeking \<longrightarrow>
        fst (Finalize q) = (emptyResult, False, Some ReportNotFound)"
    by (simp_all add: Finalize_end_of_stream)
  have 5: "\<not> done_p q \<and> hold_p q \<noteq> [] \<and> handleLine (hold_p q) q = (None, q1) \<and> \<not> done_p q1 \<longrightarrow>
        (state_p q1 = stateInBody \<longrightarrow>
           fst (Finalize q) = (emptyResult, False, Some ReportIncomplete))
        \<and> (state_p q1 = stateSeeking \<longrightarrow>
           fst (Finalize q) = (emptyResult, False, Some ReportNotFound))"
    by (simp add: Finalize_flush)
  have 6: "\<not> done_p q \<and> hold_p q \<noteq> [] \<and> handleLine (hold_p q) q = (Some err, q2) \<longrightarrow>
        Finalize q = ((emptyResult, False, Some err), q2)"
    by (simp add: Finalize_def)
  from 1 validateResult_iff[of r'] 3 4 5 6 show ?thesis by blast
qed

theorem fenced_report_validation_witness:
  "feedAll (NewParser ''needs-help'') [needsHelpChunk]
     = Inr \<lparr>SessionID_f = ''needs-help'', Status_f = ''needs_help'', CommitMsg_f = ''Blocked'',
            Details_f = ''waiting'', Escalation_f = ''approval needed''\<rparr>
   \<and> TrimSpace ''approval needed'' \<noteq> []
   \<and> state_p bodyParser = stateInBody \<and> TrimSpace '' ```'' = fence
   \<and> fst (handleLine '' ```'' bodyParser) = Some ReportMissingStatus
   \<and> \<not> done_p bodyParser \<and> hold_p bodyParser = []
   \<and> fst (Finalize bodyParser) = (emptyResult, False, Some ReportIncomplete)
   \<and> fst (Finalize (NewParser ''abc'')) = (emptyResult, False, Some ReportNotFound)
   \<and> hold_p (snd (Feed unterminatedField (NewParser ''abc''))) = ''status: success''
   \<and> fst (Finalize (snd (Feed unterminatedField (NewParser ''abc''))))
       = (emptyResult, False, Some ReportIncomplete)
   \<and> hold_p (snd (Feed truncatedBody (NewParser ''abc''))) = ''foo''
   \<and> fst (Finalize (snd (Feed truncatedBody (NewParser ''abc''))))
       = (emptyResult, False, Some (MalformedLine ''foo''))"
proof -
  let ?r = "\<lparr>SessionID_f = ''needs-help'', Status_f = ''needs_help'', CommitMsg_f = ''Blocked'',
            Details_f = ''waiting'', Escalation_f = ''approval needed''\<rparr>"
  let ?u = "snd (Feed unterminatedField (NewParser ''abc''))"
  let ?t = "snd (Feed truncatedBody (NewParser ''abc''))"
  have f: "feedAll (NewParser ''needs-help'') [needsHelpChunk] = Inr ?r"
    by code_simp
  have b: "state_p bodyParser = stateInBody" "\<not> done_p bodyParser" "hold_p bodyParser = []"
    "\<not> collectingDetails_p bodyParser"
    "validateResult (result_p bodyParser) = Some ReportMissingStatus"
    by (simp_all add: bodyParser_def NewParser_def validateResult_def emptyResult_def)
  have t: "TrimSpace '' ```'' = fence" by code_simp
  have n: "\<not> done_p (NewParser ''abc'')" "hold_p (NewParser ''abc'') = []"
    "state_p (NewParser ''abc'') = stateSeeking"
    by (simp_all add: NewParser_def)
  have u: "\<not> done_p ?u" "hold_p ?u = ''status: success''"
    "fst (handleLine (hold_p ?u) ?u) = None"
    "\<not> done_p (snd (handleLine (hold_p ?u) ?u))"
    "state_p (snd (handleLine (hold_p ?u) ?u)) = stateInBody"
    by code_simp+
  have v: "\<not> done_p ?t" "hold_p ?t = ''foo''"
    "fst (handleLine (hold_p ?t) ?t) = Some (MalformedLine ''foo'')"
    by code_simp+
  have uh: "handleLine (hold_p ?u) ?u = (None, snd (handleLine (hold_p ?u) ?u))"
    using u(3) by (metis prod.collapse)
  have vh: "handleLine (hold_p ?t) ?t = (Some (MalformedLine ''foo''), snd (handleLine (hold_p ?t) ?t))"
    using v(3) by (metis prod.collapse)
  have une: "hold_p ?u \<noteq> []" "hold_p ?t \<noteq> []" using u(2) v(2) by simp_all
  note th1 = fenced_report_validation[where sid = "''needs-help''" and chunks = "[needsHelpChunk]"
      and r = ?r and p = bodyParser and line = "'' ```''" and q = bodyParser]
  note th2 = fenced_report_validation[where q = "NewParser ''abc''"]
  note th3 = fenced_report_validation[where q = ?u and ?q1.0 = "snd (handleLine (hold_p ?u) ?u)"]
  note th4 = fenced_report_validation[where q = ?t and ?q2.0 = "snd (handleLine (hold_p ?t) ?t)"
      and err = "MalformedLine ''foo''"]
  from th1 f have e: "TrimSpace ''approval needed'' \<noteq> []" by simp
  from th1 b t have h: "fst (handleLine '' ```'' bodyParser) = Some ReportMissingStatus" by simp
  from th1 b have i: "fst (Finalize bodyParser) = (emptyResult, False, Some ReportIncomplete)"
    by blast
  from th2 n have j: "fst (Finalize (NewParser ''abc'')) = (emptyResult, False, Some ReportNotFound)"
    by blast
  from th3 u(1,4,5) une(1) uh
  have k: "fst (Finalize ?u) = (emptyResult, False, Some ReportIncomplete)"
    by blast
  from th4 v(1) une(2) vh
  have "Finalize ?t = ((emptyResult, False, Some (MalformedLine ''foo'')), snd (handleLine (hold_p ?t) ?t))"
    by blast
  then have l: "fst (Finalize ?t) = (emptyResult, False, Some (MalformedLine ''foo''))"
    by simp
  from f e b t h i j k l u(2) v(2) show ?thesis by blast
qed

text \<open>
  As stated, the end-of-stream sentences fail when the stream ends on an unterminated
  line that has an error of its own: inside the body, the last line \<open>foo\<close> gives the
  malformed-line error instead of the incomplete-report error; while seeking, an
  opening fence for another session gives the session mismatch instead of the
  not-found error.
\<close>

theorem fenced_report_end_of_stream_counterexample:
  "fst (Feed truncatedBody (NewParser ''abc'')) = (emptyResult, False, None)
   \<and> state_p (snd (Feed truncatedBody (NewParser ''abc''))) = stateInBody
   \<and> hold_p (snd (Feed truncatedBody (NewParser ''abc''))) = ''foo''
   \<and> fst (Finalize (snd (Feed truncatedBody (NewParser ''abc''))))
       = (emptyResult, False, Some (MalformedLine ''foo''))
   \<and> feedAll (NewParser ''abc'') [truncatedBody] = Inl (MalformedLine ''foo'')
   \<and> state_p (snd (Feed otherFence (NewParser ''abc''))) = stateSeeking
   \<and> feedAll (NewParser ''abc'') [otherFence] = Inl (FenceSessionMismatch ''other'' ''abc'')"
  by code_simp

section \<open>Cross-check of the two reports\<close>







end
